theory Spec2Isabelle
  imports Complex_Main "HOL-Library.Sublist"
begin

section \<open>The weighted graph of graph.h\<close>

text \<open>
  The class \<^verbatim>\<open>graph<VertexT, WeightT>\<close> keeps two counters, the vector \<^verbatim>\<open>Vertices\<close>
  and the unordered map \<^verbatim>\<open>edgeMap\<close> from a vertex to its vector of \<^verbatim>\<open>EdgeData\<close>.
  The map is never iterated, so it is a partial function; \<^verbatim>\<open>edgeMap.count(v)\<close> is
  \<open>edgeMap g v \<noteq> None\<close>. The two \<^verbatim>\<open>int\<close> counters are unbounded integers here:
  they only ever grow by one per stored vertex or edge.
\<close>

record ('v, 'w) EdgeData =
  toVert :: 'v
  toWeight :: 'w

record ('v, 'w) graph =
  vertCount :: int
  edgeCount :: int
  Vertices :: "'v list"
  edgeMap :: "'v \<rightharpoonup> ('v, 'w) EdgeData list"

definition graph_init :: "('v, 'w) graph" where
  "graph_init = \<lparr>vertCount = 0, edgeCount = 0, Vertices = [], edgeMap = Map.empty\<rparr>"

definition NumVertices :: "('v, 'w) graph \<Rightarrow> int" where
  "NumVertices g = vertCount g"

definition NumEdges :: "('v, 'w) graph \<Rightarrow> int" where
  "NumEdges g = edgeCount g"

definition addVertex :: "'v \<Rightarrow> ('v, 'w) graph \<Rightarrow> bool \<times> ('v, 'w) graph" where
  "addVertex v g =
     (if edgeMap g v \<noteq> None then (False, g)
      else (True, g\<lparr>edgeMap := (edgeMap g)(v \<mapsto> []),
                      Vertices := Vertices g @ [v],
                      vertCount := vertCount g + 1\<rparr>))"

text \<open>
  The scan of \<^verbatim>\<open>addEdge\<close> over the vector of \<^verbatim>\<open>from\<close>: the first entry that leads to
  \<^verbatim>\<open>to\<close> gets the new weight and the scan returns; \<open>None\<close> when the scan runs to the
  end of the vector.
\<close>

fun overwriteEdge :: "'v \<Rightarrow> 'w \<Rightarrow> ('v, 'w) EdgeData list \<Rightarrow> ('v, 'w) EdgeData list option" where
  "overwriteEdge to weight [] = None"
| "overwriteEdge to weight (e # es) =
     (if toVert e = to then Some (e\<lparr>toWeight := weight\<rparr> # es)
      else (case overwriteEdge to weight es of
              None \<Rightarrow> None
            | Some es' \<Rightarrow> Some (e # es')))"

definition addEdge :: "'v \<Rightarrow> 'v \<Rightarrow> 'w \<Rightarrow> ('v, 'w) graph \<Rightarrow> bool \<times> ('v, 'w) graph" where
  "addEdge from to weight g =
     (if edgeMap g from = None \<or> edgeMap g to = None then (False, g)
      else (case edgeMap g from of
              None \<Rightarrow> (False, g)
            | Some searchVector \<Rightarrow>
                (case overwriteEdge to weight searchVector of
                   Some es' \<Rightarrow> (True, g\<lparr>edgeMap := (edgeMap g)(from \<mapsto> es')\<rparr>)
                 | None \<Rightarrow>
                     (True, g\<lparr>edgeMap := (edgeMap g)(from \<mapsto>
                                   searchVector @ [\<lparr>toVert = to, toWeight = weight\<rparr>]),
                              edgeCount := edgeCount g + 1\<rparr>))))"

text \<open>
  \<^verbatim>\<open>getWeight\<close> returns \<^verbatim>\<open>true\<close> and writes the reference parameter, or returns
  \<^verbatim>\<open>false\<close> and leaves it alone: \<open>Some w\<close> and \<open>None\<close>.
\<close>

fun findWeight :: "'v \<Rightarrow> ('v, 'w) EdgeData list \<Rightarrow> 'w option" where
  "findWeight to [] = None"
| "findWeight to (e # es) = (if toVert e = to then Some (toWeight e) else findWeight to es)"

definition getWeight :: "('v, 'w) graph \<Rightarrow> 'v \<Rightarrow> 'v \<Rightarrow> 'w option" where
  "getWeight g from to =
     (if edgeMap g from = None \<or> edgeMap g to = None then None
      else (case edgeMap g from of
              None \<Rightarrow> None
            | Some searchVector \<Rightarrow> findWeight to searchVector))"

definition neighbors :: "('v, 'w) graph \<Rightarrow> 'v \<Rightarrow> 'v set" where
  "neighbors g v =
     (case edgeMap g v of
        None \<Rightarrow> {}
      | Some searchVector \<Rightarrow> set (map toVert searchVector))"

definition getVertices :: "('v, 'w) graph \<Rightarrow> 'v list" where
  "getVertices g = Vertices g"

text \<open>A history of calls on a graph, run from the constructor's empty graph.\<close>

datatype ('v, 'w) graph_op = AddVertex 'v | AddEdge 'v 'v 'w

fun apply_op :: "('v, 'w) graph \<Rightarrow> ('v, 'w) graph_op \<Rightarrow> ('v, 'w) graph" where
  "apply_op g (AddVertex v) = snd (addVertex v g)"
| "apply_op g (AddEdge a b w) = snd (addEdge a b w g)"

definition run_ops :: "('v, 'w) graph_op list \<Rightarrow> ('v, 'w) graph" where
  "run_ops ops = foldl apply_op graph_init ops"

text \<open>
  The directed pairs \<open>(from, to)\<close> that have an entry in some adjacency vector, and the
  representation invariant every graph built through the public interface satisfies.
\<close>

definition edges :: "('v, 'w) graph \<Rightarrow> ('v \<times> 'v) set" where
  "edges g = {(a, b). b \<in> neighbors g a}"

definition graph_inv :: "('v, 'w) graph \<Rightarrow> bool" where
  "graph_inv g \<longleftrightarrow>
     distinct (Vertices g) \<and>
     set (Vertices g) = dom (edgeMap g) \<and>
     (\<forall>v es. edgeMap g v = Some es \<longrightarrow>
        distinct (map toVert es) \<and> toVert ` set es \<subseteq> dom (edgeMap g)) \<and>
     vertCount g = int (length (Vertices g)) \<and>
     finite (edges g) \<and>
     edgeCount g = int (card (edges g))"

definition two_vertices :: "(int, real) graph" where
  "two_vertices = run_ops [AddVertex 1, AddVertex 2]"

section \<open>Dijkstra's algorithm of application.cpp\<close>

text \<open>
  Vertices are \<^verbatim>\<open>long long\<close> identifiers: integers here, since the code only compares and
  copies them. Weights and distances are \<^verbatim>\<open>double\<close>: real numbers here, so the model adds
  and compares without rounding, and has no NaN. The global \<^verbatim>\<open>INF\<close> is
  \<^verbatim>\<open>numeric_limits<double>::max()\<close>, the largest finite double; it is called \<open>INF_dbl\<close>
  because \<open>INF\<close> is taken by the library.
\<close>

definition INF_dbl :: real where
  "INF_dbl = (2 ^ 53 - 1) * 2 ^ 971"

text \<open>
  What can go wrong in the code: \<^verbatim>\<open>at()\<close> of a map or vector on a missing key or index
  throws \<^verbatim>\<open>std::out_of_range\<close>; a local variable can be read before anything was stored
  in it.
\<close>

datatype error = OutOfRange | Uninitialized

text \<open>
  A \<^verbatim>\<open>std::map\<close> is an association list (the code never iterates over one). \<^verbatim>\<open>at\<close> throws
  on a missing key, \<^verbatim>\<open>emplace\<close> leaves an existing key alone, \<^verbatim>\<open>erase\<close> removes a key, and
  an assignment through \<^verbatim>\<open>at(k) = x\<close> replaces the value in place.
\<close>

type_synonym ('k, 'a) std_map = "('k \<times> 'a) list"

definition map_at :: "('k, 'a) std_map \<Rightarrow> 'k \<Rightarrow> error + 'a" where
  "map_at m k = (case map_of m k of None \<Rightarrow> Inl OutOfRange | Some x \<Rightarrow> Inr x)"

definition map_emplace :: "'k \<Rightarrow> 'a \<Rightarrow> ('k, 'a) std_map \<Rightarrow> ('k, 'a) std_map" where
  "map_emplace k x m = (if map_of m k = None then m @ [(k, x)] else m)"

definition map_erase :: "'k \<Rightarrow> ('k, 'a) std_map \<Rightarrow> ('k, 'a) std_map" where
  "map_erase k m = filter (\<lambda>p. fst p \<noteq> k) m"

definition map_assign :: "'k \<Rightarrow> 'a \<Rightarrow> ('k, 'a) std_map \<Rightarrow> ('k, 'a) std_map" where
  "map_assign k x m = map (\<lambda>p. if fst p = k then (k, x) else p) m"

text \<open>
  The \<^verbatim>\<open>std::priority_queue\<close> with the comparator \<^verbatim>\<open>prioritize\<close> (\<^verbatim>\<open>p1.second > p2.second\<close>):
  \<^verbatim>\<open>top()\<close> is an entry that no other entry beats, that is one of least distance. Which
  one, among several of the same least distance, the C++ standard leaves to the heap. The
  model keeps the queue's entries in insertion order together with the history of its
  operations; a tie-breaking function of the history picks among the least entries. Every
  deterministic priority queue is one such function, and the theorems below hold for all
  of them.
\<close>

type_synonym entry = "int \<times> real"

datatype pq_op = Push entry | Pop

record pq =
  history :: "pq_op list"
  content :: "entry list"

type_synonym tie_break = "pq_op list \<Rightarrow> nat"

definition pq_init :: pq where
  "pq_init = \<lparr>history = [], content = []\<rparr>"

definition pq_empty :: "pq \<Rightarrow> bool" where
  "pq_empty q \<longleftrightarrow> content q = []"

definition pq_push :: "entry \<Rightarrow> pq \<Rightarrow> pq" where
  "pq_push e q = \<lparr>history = history q @ [Push e], content = content q @ [e]\<rparr>"

definition top_candidates :: "entry list \<Rightarrow> entry list" where
  "top_candidates es = filter (\<lambda>e. \<forall>e' \<in> set es. \<not> snd e > snd e') es"

definition pq_top :: "tie_break \<Rightarrow> pq \<Rightarrow> entry" where
  "pq_top tie q =
     (let c = top_candidates (content q) in c ! (tie (history q) mod length c))"

definition pq_pop :: "tie_break \<Rightarrow> pq \<Rightarrow> pq" where
  "pq_pop tie q =
     \<lparr>history = history q @ [Pop], content = remove1 (pq_top tie q) (content q)\<rparr>"

text \<open>
  The local variables of \<^verbatim>\<open>Dijkstra\<close> that its loops change. \<^verbatim>\<open>edgeWeight\<close> is declared
  without a value (\<open>None\<close>) and written by \<^verbatim>\<open>getWeight\<close> only when the edge exists.
\<close>

record dijkstra_state =
  unvisitedQ :: pq
  distances :: "(int, real) std_map"
  predecessors :: "(int, int) std_map"
  visitedVertices :: "int set"
  edgeWeight :: "real option"

definition dijkstra_init :: dijkstra_state where
  "dijkstra_init = \<lparr>unvisitedQ = pq_init, distances = [], predecessors = [],
     visitedVertices = {}, edgeWeight = None\<rparr>"

text \<open>The first loop (lines 125-129): one entry per vertex in each container.\<close>

fun setup_loop :: "int list \<Rightarrow> dijkstra_state \<Rightarrow> error + dijkstra_state" where
  "setup_loop [] s = Inr s"
| "setup_loop (v # vs) s =
     (let d = map_emplace v INF_dbl (distances s);
          p = map_emplace v (- 1) (predecessors s)
      in case map_at d v of
           Inl e \<Rightarrow> Inl e
         | Inr dv \<Rightarrow>
             setup_loop vs
               (s\<lparr>distances := d, predecessors := p,
                   unvisitedQ := pq_push (v, dv) (unvisitedQ s)\<rparr>))"

text \<open>
  The loop over the neighbours of \<^verbatim>\<open>currentV\<close> (lines 154-167), which the \<^verbatim>\<open>std::set\<close>
  yields in increasing order.
\<close>

fun relax_loop :: "(int, real) graph \<Rightarrow> int \<Rightarrow> int list \<Rightarrow> dijkstra_state \<Rightarrow> error + dijkstra_state" where
  "relax_loop G currentV [] s = Inr s"
| "relax_loop G currentV (adjV # rest) s =
     (let ew = (case getWeight G currentV adjV of Some w \<Rightarrow> Some w | None \<Rightarrow> edgeWeight s);
          s1 = s\<lparr>edgeWeight := ew\<rparr>
      in case map_at (distances s1) currentV of
           Inl e \<Rightarrow> Inl e
         | Inr dc \<Rightarrow>
             (case ew of
                None \<Rightarrow> Inl Uninitialized
              | Some w \<Rightarrow>
                  (let altPathDistance = dc + w
                   in case map_at (distances s1) adjV of
                        Inl e \<Rightarrow> Inl e
                      | Inr da \<Rightarrow>
                          if altPathDistance < da
                          then relax_loop G currentV rest
                                 (s1\<lparr>distances :=
                                        map_emplace adjV altPathDistance (map_erase adjV (distances s1)),
                                      predecessors :=
                                        map_emplace adjV currentV (map_erase adjV (predecessors s1)),
                                      unvisitedQ := pq_push (adjV, altPathDistance) (unvisitedQ s1)\<rparr>)
                          else relax_loop G currentV rest s1)))"

text \<open>
  The facts that the termination proof of the main loop needs: a pop takes an entry out
  of a queue that has one, and a relaxation keeps the keys of \<^verbatim>\<open>distances\<close> and the
  visited set.
\<close>

lemma top_candidates_nonempty: "es \<noteq> [] \<Longrightarrow> top_candidates es \<noteq> []"
proof -
  assume ne: "es \<noteq> []"
  then have "snd ` set es \<noteq> {}" "finite (snd ` set es)" by auto
  then have "Min (snd ` set es) \<in> snd ` set es" by (rule_tac Min_in) auto
  then obtain e where e: "e \<in> set es" "snd e = Min (snd ` set es)" by auto
  then have "\<forall>e' \<in> set es. \<not> snd e > snd e'" by (auto simp: not_less)
  with e(1) have "e \<in> set (top_candidates es)" by (simp add: top_candidates_def)
  then show ?thesis by auto
qed

lemma pq_top_in_candidates:
  "content q \<noteq> [] \<Longrightarrow> pq_top tie q \<in> set (top_candidates (content q))"
  using top_candidates_nonempty[of "content q"]
  by (simp add: pq_top_def Let_def)

lemma pq_top_in_content: "content q \<noteq> [] \<Longrightarrow> pq_top tie q \<in> set (content q)"
  using pq_top_in_candidates[of q tie] by (simp add: top_candidates_def)

lemma pq_top_minimal:
  "content q \<noteq> [] \<Longrightarrow> e \<in> set (content q) \<Longrightarrow> snd (pq_top tie q) \<le> snd e"
  using pq_top_in_candidates[of q tie] by (auto simp: top_candidates_def not_less)

lemma length_pq_pop:
  "content q \<noteq> [] \<Longrightarrow> length (content (pq_pop tie q)) < length (content q)"
proof -
  assume ne: "content q \<noteq> []"
  then have "0 < length (content q)" by simp
  with pq_top_in_content[OF ne, of tie] show ?thesis
    by (simp add: pq_pop_def length_remove1)
qed

lemma keys_map_emplace_erase [simp]:
  "fst ` set (map_emplace k x (map_erase k m)) = insert k (fst ` set m)"
  by (auto simp: map_emplace_def map_erase_def map_of_eq_None_iff image_iff)

lemma map_at_Inr_key: "map_at m k = Inr x \<Longrightarrow> k \<in> fst ` set m"
  by (auto simp: map_at_def image_iff split: option.splits dest!: map_of_SomeD) force

lemma relax_loop_frame:
  "relax_loop G c vs s = Inr s' \<Longrightarrow>
     fst ` set (distances s') = fst ` set (distances s) \<and>
     visitedVertices s' = visitedVertices s"
proof (induction vs arbitrary: s)
  case Nil
  then show ?case by simp
next
  case (Cons v vs)
  then show ?case
    by (auto simp: Let_def insert_absorb dest!: map_at_Inr_key
        split: sum.splits option.splits if_splits)
qed

lemma visit_decreases:
  assumes "map_at (distances s) x = Inr d" and "x \<notin> visitedVertices s"
    and "relax_loop G x vs (s\<lparr>unvisitedQ := q, visitedVertices := insert x (visitedVertices s)\<rparr>) = Inr s3"
  shows "card (fst ` set (distances s3) - visitedVertices s3) < card (fst ` set (distances s) - visitedVertices s)"
proof -
  from relax_loop_frame[OF assms(3)]
  have f: "fst ` set (distances s3) = fst ` set (distances s)"
    "visitedVertices s3 = insert x (visitedVertices s)" by auto
  from assms(1) have k: "x \<in> fst ` set (distances s)" by (rule map_at_Inr_key)
  have "fst ` set (distances s) - insert x (visitedVertices s) \<subset> fst ` set (distances s) - visitedVertices s"
    using k assms(2) by auto
  then have "card (fst ` set (distances s) - insert x (visitedVertices s)) < card (fst ` set (distances s) - visitedVertices s)"
    by (intro psubset_card_mono) auto
  with f show ?thesis by simp
qed

text \<open>
  The \<^verbatim>\<open>while\<close> loop (lines 139-172). \<^verbatim>\<open>currentV\<close> is declared without a value; the loop
  returns the state and the last \<^verbatim>\<open>currentV\<close>. The first \<^verbatim>\<open>break\<close> (line 144) leaves with
  the vertex whose distance is \<open>INF_dbl\<close>; the \<^verbatim>\<open>continue\<close> (line 147) drops an entry of a
  vertex that was visited before; the second \<^verbatim>\<open>break\<close> (line 170) leaves at \<^verbatim>\<open>endV\<close>.
\<close>

function main_loop ::
  "tie_break \<Rightarrow> (int, real) graph \<Rightarrow> int \<Rightarrow> dijkstra_state \<Rightarrow> int option \<Rightarrow>
     error + (dijkstra_state \<times> int option)" where
  "main_loop tie G endV s cur =
     (if pq_empty (unvisitedQ s) then Inr (s, cur)
      else
        (let currentV = fst (pq_top tie (unvisitedQ s));
             s1 = s\<lparr>unvisitedQ := pq_pop tie (unvisitedQ s)\<rparr>
         in case map_at (distances s1) currentV of
              Inl e \<Rightarrow> Inl e
            | Inr d \<Rightarrow>
                if d = INF_dbl then Inr (s1, Some currentV)
                else if currentV \<in> visitedVertices s1
                then main_loop tie G endV s1 (Some currentV)
                else
                  (let s2 = s1\<lparr>visitedVertices := insert currentV (visitedVertices s1)\<rparr>
                   in case relax_loop G currentV (sorted_list_of_set (neighbors G currentV)) s2 of
                        Inl e \<Rightarrow> Inl e
                      | Inr s3 \<Rightarrow>
                          if currentV = endV then Inr (s3, Some currentV)
                          else main_loop tie G endV s3 (Some currentV))))"
  by pat_completeness auto
termination
proof (relation "(\<lambda>(tie, G, endV, s, cur). card (fst ` set (distances s) - visitedVertices s))
         <*mlex*> measure (\<lambda>(tie, G, endV, s, cur). length (content (unvisitedQ s)))",
       goal_cases)
  case 1
  show ?case by (simp add: wf_mlex)
next
  case 2
  then show ?case
    by (auto simp: mlex_prod_def pq_empty_def length_pq_pop)
next
  case 3
  then show ?case
    by (auto simp: mlex_prod_def visit_decreases)
qed

declare main_loop.simps [simp del]

text \<open>
  The walk back through \<^verbatim>\<open>predecessors\<close> (lines 180-183) stops at the first \<open>- 1\<close>. Nothing
  bounds it when the predecessors form a cycle, so it is a partial function: \<open>None\<close> is a
  walk that never ends.
\<close>

partial_function (option) backTrace_loop ::
  "(int, int) std_map \<Rightarrow> int \<Rightarrow> int list \<Rightarrow> (error + int list) option" where
  [code]: "backTrace_loop preds backTrace path =
     (if backTrace \<noteq> - 1
      then (case map_at preds backTrace of
              Inl e \<Rightarrow> Some (Inl e)
            | Inr p \<Rightarrow> backTrace_loop preds p (path @ [backTrace]))
      else Some (Inr path))"

text \<open>
  \<^verbatim>\<open>Dijkstra(G, startV, endV, path)\<close>: the result is the returned \<^verbatim>\<open>double\<close> with the
  contents of the vector \<^verbatim>\<open>path\<close> after the call, an exception, or \<open>None\<close> when the call
  does not return. The value \<open>- 1\<close> is the code's sign for "found nothing".
\<close>

definition Dijkstra ::
  "tie_break \<Rightarrow> (int, real) graph \<Rightarrow> int \<Rightarrow> int \<Rightarrow> int list \<Rightarrow> (error + real \<times> int list) option" where
  "Dijkstra tie G startV endV path =
     (case setup_loop (getVertices G) dijkstra_init of
        Inl e \<Rightarrow> Some (Inl e)
      | Inr s1 \<Rightarrow>
          (case map_at (distances s1) startV of
             Inl e \<Rightarrow> Some (Inl e)
           | Inr _ \<Rightarrow>
               (let s2 = s1\<lparr>distances := map_assign startV 0 (distances s1)\<rparr>
                in case map_at (distances s2) startV of
                     Inl e \<Rightarrow> Some (Inl e)
                   | Inr d0 \<Rightarrow>
                       (case main_loop tie G endV
                               (s2\<lparr>unvisitedQ := pq_push (startV, d0) (unvisitedQ s2)\<rparr>) None of
                          Inl e \<Rightarrow> Some (Inl e)
                        | Inr (s3, cur) \<Rightarrow>
                            (case cur of
                               None \<Rightarrow> Some (Inl Uninitialized)
                             | Some currentV \<Rightarrow>
                                 if currentV \<noteq> endV then Some (Inr (- 1, path))
                                 else
                                   (case map_at (predecessors s3) endV of
                                      Inl e \<Rightarrow> Some (Inl e)
                                    | Inr backTrace \<Rightarrow>
                                        (case backTrace_loop (predecessors s3) backTrace (path @ [endV]) of
                                           None \<Rightarrow> None
                                         | Some (Inl e) \<Rightarrow> Some (Inl e)
                                         | Some (Inr path') \<Rightarrow>
                                             (case map_at (distances s3) endV of
                                                Inl e \<Rightarrow> Some (Inl e)
                                              | Inr d \<Rightarrow> Some (Inr (d, path'))))))))))"

text \<open>
  The weight of a vertex sequence read as a walk: the sum of the weights of its consecutive
  edges, \<open>None\<close> when one of them is not an edge of the graph. \<^verbatim>\<open>Dijkstra\<close> fills \<^verbatim>\<open>path\<close>
  from the target back to the source, so the walk it stands for is \<open>rev path\<close>.
\<close>

fun path_weight :: "(int, real) graph \<Rightarrow> int list \<Rightarrow> real option" where
  "path_weight G [] = Some 0"
| "path_weight G [v] = Some 0"
| "path_weight G (u # v # rest) =
     (case getWeight G u v of
        None \<Rightarrow> None
      | Some w \<Rightarrow> (case path_weight G (v # rest) of None \<Rightarrow> None | Some r \<Rightarrow> Some (w + r)))"

definition is_walk :: "(int, real) graph \<Rightarrow> int \<Rightarrow> int \<Rightarrow> int list \<Rightarrow> bool" where
  "is_walk G a b p \<longleftrightarrow> p \<noteq> [] \<and> hd p = a \<and> last p = b \<and> path_weight G p \<noteq> None"

text \<open>Two vertices and no edge.\<close>

definition two_isolated :: "(int, real) graph" where
  "two_isolated = run_ops [AddVertex 1, AddVertex 2]"

text \<open>
  The keys of the three containers of a run; in every state of a run on a graph they are
  vertices of the graph.
\<close>

definition keys_of :: "dijkstra_state \<Rightarrow> int set \<times> int set \<times> int set" where
  "keys_of s = (fst ` set (distances s), fst ` set (predecessors s),
     fst ` set (content (unvisitedQ s)))"

definition keys_ok :: "(int, real) graph \<Rightarrow> dijkstra_state \<Rightarrow> bool" where
  "keys_ok G s \<longleftrightarrow>
     fst ` set (distances s) = set (Vertices G) \<and>
     fst ` set (predecessors s) = set (Vertices G) \<and>
     fst ` set (content (unvisitedQ s)) \<subseteq> set (Vertices G)"

text \<open>
  The spec's scenario: the vertices 1, 2, 3, 4 in a row, joined by edges of weight 1 in
  both directions.
\<close>

definition chain4 :: "(int, real) graph" where
  "chain4 = run_ops [AddVertex 1, AddVertex 2, AddVertex 3, AddVertex 4,
     AddEdge 1 2 1, AddEdge 2 1 1, AddEdge 2 3 1, AddEdge 3 2 1, AddEdge 3 4 1, AddEdge 4 3 1]"

section \<open>The meeting-point query of application.cpp\<close>

text \<open>
  Modelled from the spec: the structs \<^verbatim>\<open>Coordinates\<close>, \<^verbatim>\<open>BuildingInfo\<close> and \<^verbatim>\<open>FootwayInfo\<close>
  are declared in osm.h, which is not among the sources. The records have the fields that
  application.cpp reads, with the spec's data model for their meaning: a coordinate is a
  node identifier with latitude and longitude, a building a full name, an abbreviation and
  one coordinate, a footway a sequence of node identifiers.
\<close>

record Coordinates =
  ID :: int
  Lat :: real
  Lon :: real

record BuildingInfo =
  Fullname :: string
  Abbrev :: string
  Coords :: Coordinates

record FootwayInfo =
  Nodes :: "int list"

text \<open>
  dist.h declares \<^verbatim>\<open>distBetween2Points\<close> and \<^verbatim>\<open>centerBetween2Points\<close> and nothing defines
  them, so every function below that calls one takes it as a parameter.
\<close>

type_synonym dist_fn = "real \<Rightarrow> real \<Rightarrow> real \<Rightarrow> real \<Rightarrow> real"

type_synonym center_fn = "real \<Rightarrow> real \<Rightarrow> real \<Rightarrow> real \<Rightarrow> Coordinates"

text \<open>
  \<^verbatim>\<open>vector::at\<close> with an \<^verbatim>\<open>int\<close> index: a negative index becomes a huge \<^verbatim>\<open>size_t\<close>, so it
  throws like an index past the end.
\<close>

definition vector_at :: "'a list \<Rightarrow> int \<Rightarrow> error + 'a" where
  "vector_at xs i = (if 0 \<le> i \<and> nat i < length xs then Inr (xs ! nat i) else Inl OutOfRange)"

text \<open>
  \<^verbatim>\<open>searchBuilding\<close>: the first building whose abbreviation contains the search term,
  else the first whose full name contains it, else \<open>- 1\<close>. \<^verbatim>\<open>string::find\<close> looks for a
  contiguous occurrence.
\<close>

fun search_loop :: "(BuildingInfo \<Rightarrow> string) \<Rightarrow> string \<Rightarrow> BuildingInfo list \<Rightarrow> int \<Rightarrow> int option" where
  "search_loop field searchTerm [] i = None"
| "search_loop field searchTerm (b # bs) i =
     (if sublist searchTerm (field b) then Some i
      else search_loop field searchTerm bs (i + 1))"

definition searchBuilding :: "BuildingInfo list \<Rightarrow> string \<Rightarrow> int" where
  "searchBuilding Buildings searchTerm =
     (case search_loop Abbrev searchTerm Buildings 0 of
        Some i \<Rightarrow> i
      | None \<Rightarrow>
          (case search_loop Fullname searchTerm Buildings 0 of
             Some i \<Rightarrow> i
           | None \<Rightarrow> - 1))"

text \<open>
  \<^verbatim>\<open>getCenterBuildingIndex\<close>: the loop carries the index \<open>i\<close>, the least distance \<open>mn\<close> so
  far (\<^verbatim>\<open>min\<close> in the code) and its index; buildings whose full name is in
  \<^verbatim>\<open>invalidCenters\<close> are skipped. The result is \<open>- 1\<close> when no building was taken.
\<close>

fun center_scan ::
  "dist_fn \<Rightarrow> real \<Rightarrow> real \<Rightarrow> string set \<Rightarrow> BuildingInfo list \<Rightarrow> int \<Rightarrow> real \<Rightarrow> int \<Rightarrow> int" where
  "center_scan distBetween2Points midLat midLon invalidCenters [] i mn minIndex = minIndex"
| "center_scan distBetween2Points midLat midLon invalidCenters (b # bs) i mn minIndex =
     (if Fullname b \<in> invalidCenters
      then center_scan distBetween2Points midLat midLon invalidCenters bs (i + 1) mn minIndex
      else
        (let distance = distBetween2Points midLat midLon (Lat (Coords b)) (Lon (Coords b))
         in if distance < mn
            then center_scan distBetween2Points midLat midLon invalidCenters bs (i + 1) distance i
            else center_scan distBetween2Points midLat midLon invalidCenters bs (i + 1) mn minIndex))"

definition getCenterBuildingIndex ::
  "dist_fn \<Rightarrow> BuildingInfo list \<Rightarrow> Coordinates \<Rightarrow> string set \<Rightarrow> int" where
  "getCenterBuildingIndex distBetween2Points Buildings midpoint invalidCenters =
     center_scan distBetween2Points (Lat midpoint) (Lon midpoint) invalidCenters Buildings
       0 INF_dbl (- 1)"

text \<open>
  \<^verbatim>\<open>getClosestNode\<close>: the two nested loops run over the node identifiers of all footways in
  order. \<^verbatim>\<open>minID\<close> is declared without a value; \<^verbatim>\<open>Nodes.at\<close> throws on an identifier
  that the node map does not have.
\<close>

fun closest_scan ::
  "dist_fn \<Rightarrow> (int, Coordinates) std_map \<Rightarrow> real \<Rightarrow> real \<Rightarrow> int list \<Rightarrow> real \<Rightarrow> int option \<Rightarrow>
     error + int option" where
  "closest_scan distBetween2Points NodeMap buildLat buildLon [] mn minID = Inr minID"
| "closest_scan distBetween2Points NodeMap buildLat buildLon (j # js) mn minID =
     (case map_at NodeMap j of
        Inl e \<Rightarrow> Inl e
      | Inr c \<Rightarrow>
          (let distance = distBetween2Points buildLat buildLon (Lat c) (Lon c)
           in if distance < mn
              then closest_scan distBetween2Points NodeMap buildLat buildLon js distance (Some j)
              else closest_scan distBetween2Points NodeMap buildLat buildLon js mn minID))"

definition getClosestNode ::
  "dist_fn \<Rightarrow> (int, Coordinates) std_map \<Rightarrow> FootwayInfo list \<Rightarrow> BuildingInfo \<Rightarrow> error + Coordinates" where
  "getClosestNode distBetween2Points NodeMap Footways building =
     (case closest_scan distBetween2Points NodeMap (Lat (Coords building)) (Lon (Coords building))
             (concat (map Nodes Footways)) INF_dbl None of
        Inl e \<Rightarrow> Inl e
      | Inr None \<Rightarrow> Inl Uninitialized
      | Inr (Some minID) \<Rightarrow> map_at NodeMap minID)"

text \<open>
  One pass of the \<^verbatim>\<open>while (true)\<close> loop of \<^verbatim>\<open>application\<close>, from the two indices that
  \<^verbatim>\<open>searchBuilding\<close> returned. Besides its result the model records, in order, what the
  pass did: each result of \<^verbatim>\<open>getCenterBuildingIndex\<close>, each call of \<^verbatim>\<open>Dijkstra\<close> with its
  start and end vertex, and each name inserted into \<^verbatim>\<open>invalidCenters\<close>. The result is what
  the pass prints last: one of the three messages, or the destination with both distances
  and paths.
\<close>

datatype event = CenterChosen int | DijkstraRun int int | CenterExcluded string

type_synonym legs = "BuildingInfo \<times> Coordinates \<times> real \<times> int list \<times> real \<times> int list"

datatype outcome =
    Person1NotFound
  | Person2NotFound
  | DestinationUnreachable
  | Found BuildingInfo Coordinates real "int list" real "int list"

text \<open>
  For the termination of the retry loop: a building that \<^verbatim>\<open>getCenterBuildingIndex\<close> picks
  is one of the buildings and its name is not excluded yet, so excluding it leaves fewer
  candidates.
\<close>

lemma center_scan_result:
  "center_scan d lat lon invalid bs i mn mi = r \<Longrightarrow>
     r = mi \<or> (i \<le> r \<and> r < i + int (length bs) \<and> Fullname (bs ! nat (r - i)) \<notin> invalid)"
proof (induction bs arbitrary: i mn mi)
  case Nil
  then show ?case by simp
next
  case (Cons b bs)
  show ?case
  proof (cases "Fullname b \<in> invalid")
    case True
    with Cons.prems have "center_scan d lat lon invalid bs (i + 1) mn mi = r" by simp
    from Cons.IH[OF this] show ?thesis
    proof
      assume "r = mi" then show ?thesis by simp
    next
      assume a: "i + 1 \<le> r \<and> r < i + 1 + int (length bs) \<and> Fullname (bs ! nat (r - (i + 1))) \<notin> invalid"
      then have "nat (r - i) = Suc (nat (r - (i + 1)))" by arith
      with a show ?thesis by simp
    qed
  next
    case False
    show ?thesis
    proof (cases "d lat lon (Lat (Coords b)) (Lon (Coords b)) < mn")
      case True
      with False Cons.prems
      have "center_scan d lat lon invalid bs (i + 1) (d lat lon (Lat (Coords b)) (Lon (Coords b))) i = r"
        by (simp add: Let_def)
      from Cons.IH[OF this] show ?thesis
      proof
        assume "r = i" with False show ?thesis by simp
      next
        assume a: "i + 1 \<le> r \<and> r < i + 1 + int (length bs) \<and> Fullname (bs ! nat (r - (i + 1))) \<notin> invalid"
        then have "nat (r - i) = Suc (nat (r - (i + 1)))" by arith
        with a show ?thesis by simp
      qed
    next
      case nl: False
      with False Cons.prems have "center_scan d lat lon invalid bs (i + 1) mn mi = r"
        by (simp add: Let_def)
      from Cons.IH[OF this] show ?thesis
      proof
        assume "r = mi" then show ?thesis by simp
      next
        assume a: "i + 1 \<le> r \<and> r < i + 1 + int (length bs) \<and> Fullname (bs ! nat (r - (i + 1))) \<notin> invalid"
        then have "nat (r - i) = Suc (nat (r - (i + 1)))" by arith
        with a show ?thesis by simp
      qed
    qed
  qed
qed

lemma getCenterBuildingIndex_at:
  assumes "vector_at Buildings (getCenterBuildingIndex d Buildings midpoint invalid) = Inr b"
  shows "b \<in> set Buildings \<and> Fullname b \<notin> invalid"
proof -
  let ?r = "getCenterBuildingIndex d Buildings midpoint invalid"
  from assms have r: "0 \<le> ?r" "nat ?r < length Buildings" "b = Buildings ! nat ?r"
    by (auto simp: vector_at_def split: if_splits)
  from center_scan_result[of d "Lat midpoint" "Lon midpoint" invalid Buildings 0 INF_dbl "- 1" ?r] r(1)
  have "Fullname (Buildings ! nat ?r) \<notin> invalid"
    by (auto simp: getCenterBuildingIndex_def)
  with r show ?thesis by simp
qed

lemma exclude_decreases:
  assumes "b \<in> set bs" and "Fullname b \<notin> invalid"
  shows "length (filter (\<lambda>x. Fullname x \<notin> insert (Fullname b) invalid) bs)
           < length (filter (\<lambda>x. Fullname x \<notin> invalid) bs)"
proof -
  have "length (filter (\<lambda>x. Fullname x \<notin> insert (Fullname b) invalid) bs)
      = length (filter (\<lambda>x. Fullname x \<noteq> Fullname b) (filter (\<lambda>x. Fullname x \<notin> invalid) bs))"
    by (simp add: conj_commute)
  also have "\<dots> < length (filter (\<lambda>x. Fullname x \<notin> invalid) bs)"
    using assms by (intro length_filter_less[of b]) auto
  finally show ?thesis .
qed

text \<open>
  The inner \<^verbatim>\<open>while (true)\<close> (lines 315-342): exclude the current center, pick the next
  one, resolve its node, run both legs again; repeat while a leg returns \<open>- 1\<close>.
\<close>

function retry_loop ::
  "tie_break \<Rightarrow> dist_fn \<Rightarrow> (int, Coordinates) std_map \<Rightarrow> FootwayInfo list \<Rightarrow> BuildingInfo list \<Rightarrow>
     (int, real) graph \<Rightarrow> Coordinates \<Rightarrow> Coordinates \<Rightarrow> Coordinates \<Rightarrow>
     BuildingInfo \<Rightarrow> string set \<Rightarrow> event list \<Rightarrow> (event list \<times> (error + legs)) option" where
  "retry_loop tie distBetween2Points NodeMap Footways Buildings G midpoint p1Coords p2Coords
       centerBuilding invalidCenters tr =
     (let invalidCenters1 = insert (Fullname centerBuilding) invalidCenters;
          tr1 = tr @ [CenterExcluded (Fullname centerBuilding)];
          idx = getCenterBuildingIndex distBetween2Points Buildings midpoint invalidCenters1;
          tr2 = tr1 @ [CenterChosen idx]
      in case vector_at Buildings idx of
           Inl e \<Rightarrow> Some (tr2, Inl e)
         | Inr centerBuilding1 \<Rightarrow>
             (case getClosestNode distBetween2Points NodeMap Footways centerBuilding1 of
                Inl e \<Rightarrow> Some (tr2, Inl e)
              | Inr centerCoords \<Rightarrow>
                  (let tr3 = tr2 @ [DijkstraRun (ID p1Coords) (ID centerCoords)]
                   in case Dijkstra tie G (ID p1Coords) (ID centerCoords) [] of
                        None \<Rightarrow> None
                      | Some (Inl e) \<Rightarrow> Some (tr3, Inl e)
                      | Some (Inr (totalDistance1, path1)) \<Rightarrow>
                          (let tr4 = tr3 @ [DijkstraRun (ID p2Coords) (ID centerCoords)]
                           in case Dijkstra tie G (ID p2Coords) (ID centerCoords) [] of
                                None \<Rightarrow> None
                              | Some (Inl e) \<Rightarrow> Some (tr4, Inl e)
                              | Some (Inr (totalDistance2, path2)) \<Rightarrow>
                                  if totalDistance1 = - 1 \<or> totalDistance2 = - 1
                                  then retry_loop tie distBetween2Points NodeMap Footways Buildings G
                                         midpoint p1Coords p2Coords centerBuilding1 invalidCenters1 tr4
                                  else Some (tr4, Inr (centerBuilding1, centerCoords,
                                         totalDistance1, path1, totalDistance2, path2))))))"
  by pat_completeness auto
termination
proof (relation "measure (\<lambda>(tie, d, NodeMap, Footways, Buildings, G, midpoint, p1Coords, p2Coords,
          centerBuilding, invalidCenters, tr).
          length (filter (\<lambda>b. Fullname b \<notin> insert (Fullname centerBuilding) invalidCenters) Buildings))",
       goal_cases)
  case 1
  show ?case by simp
next
  case (2 tie d NodeMap Footways Buildings G midpoint p1Coords p2Coords centerBuilding
      invalidCenters tr invalidCenters1 tr1 idx tr2 centerBuilding1)
  from 2(1,3,5) have "vector_at Buildings (getCenterBuildingIndex d Buildings midpoint
      (insert (Fullname centerBuilding) invalidCenters)) = Inr centerBuilding1" by simp
  from getCenterBuildingIndex_at[OF this]
  have "centerBuilding1 \<in> set Buildings"
    "Fullname centerBuilding1 \<notin> insert (Fullname centerBuilding) invalidCenters" by blast+
  from exclude_decreases[OF this] 2(1) show ?case by simp
qed

declare retry_loop.simps [simp del]

text \<open>
  The final printing (lines 347-360) reads \<^verbatim>\<open>path.at(path.size() - 1)\<close> down to
  \<^verbatim>\<open>path.at(0)\<close>, which throws on an empty path.
\<close>

definition print_result :: "event list \<Rightarrow> legs \<Rightarrow> (event list \<times> (error + outcome)) option" where
  "print_result tr r =
     (case r of (centerBuilding, centerCoords, totalDistance1, path1, totalDistance2, path2) \<Rightarrow>
        if path1 = [] \<or> path2 = [] then Some (tr, Inl OutOfRange)
        else Some (tr, Inr (Found centerBuilding centerCoords totalDistance1 path1 totalDistance2 path2)))"

text \<open>
  Lines 228-361. The three calls of \<^verbatim>\<open>Dijkstra\<close> come in the order of the code: person 1
  to the center, person 2 to the center, person 1 to person 2.
\<close>

definition meeting_query ::
  "tie_break \<Rightarrow> dist_fn \<Rightarrow> center_fn \<Rightarrow> (int, Coordinates) std_map \<Rightarrow> FootwayInfo list \<Rightarrow>
     BuildingInfo list \<Rightarrow> (int, real) graph \<Rightarrow> int \<Rightarrow> int \<Rightarrow> (event list \<times> (error + outcome)) option" where
  "meeting_query tie distBetween2Points centerBetween2Points NodeMap Footways Buildings G
       firstIndex secondIndex =
     (if firstIndex = - 1 then Some ([], Inr Person1NotFound)
      else if secondIndex = - 1 then Some ([], Inr Person2NotFound)
      else
        (case vector_at Buildings firstIndex of
           Inl e \<Rightarrow> Some ([], Inl e)
         | Inr p1Building \<Rightarrow>
        (case vector_at Buildings secondIndex of
           Inl e \<Rightarrow> Some ([], Inl e)
         | Inr p2Building \<Rightarrow>
        (let midpoint = centerBetween2Points (Lat (Coords p1Building)) (Lon (Coords p1Building))
                          (Lat (Coords p2Building)) (Lon (Coords p2Building));
             idx = getCenterBuildingIndex distBetween2Points Buildings midpoint {};
             tr1 = [CenterChosen idx]
         in case vector_at Buildings idx of
              Inl e \<Rightarrow> Some (tr1, Inl e)
            | Inr centerBuilding \<Rightarrow>
        (case getClosestNode distBetween2Points NodeMap Footways p1Building of
           Inl e \<Rightarrow> Some (tr1, Inl e)
         | Inr p1Coords \<Rightarrow>
        (case getClosestNode distBetween2Points NodeMap Footways p2Building of
           Inl e \<Rightarrow> Some (tr1, Inl e)
         | Inr p2Coords \<Rightarrow>
        (case getClosestNode distBetween2Points NodeMap Footways centerBuilding of
           Inl e \<Rightarrow> Some (tr1, Inl e)
         | Inr centerCoords \<Rightarrow>
        (let tr2 = tr1 @ [DijkstraRun (ID p1Coords) (ID centerCoords)]
         in case Dijkstra tie G (ID p1Coords) (ID centerCoords) [] of
              None \<Rightarrow> None
            | Some (Inl e) \<Rightarrow> Some (tr2, Inl e)
            | Some (Inr (totalDistance1, path1)) \<Rightarrow>
        (let tr3 = tr2 @ [DijkstraRun (ID p2Coords) (ID centerCoords)]
         in case Dijkstra tie G (ID p2Coords) (ID centerCoords) [] of
              None \<Rightarrow> None
            | Some (Inl e) \<Rightarrow> Some (tr3, Inl e)
            | Some (Inr (totalDistance2, path2)) \<Rightarrow>
        (let tr4 = tr3 @ [DijkstraRun (ID p1Coords) (ID p2Coords)]
         in case Dijkstra tie G (ID p1Coords) (ID p2Coords) [] of
              None \<Rightarrow> None
            | Some (Inl e) \<Rightarrow> Some (tr4, Inl e)
            | Some (Inr (validPathDistance, validPath)) \<Rightarrow>
                if validPathDistance = - 1 then Some (tr4, Inr DestinationUnreachable)
                else if totalDistance1 = - 1 \<or> totalDistance2 = - 1
                then (case retry_loop tie distBetween2Points NodeMap Footways Buildings G
                             midpoint p1Coords p2Coords centerBuilding {} tr4 of
                        None \<Rightarrow> None
                      | Some (tr5, Inl e) \<Rightarrow> Some (tr5, Inl e)
                      | Some (tr5, Inr r) \<Rightarrow> print_result tr5 r)
                else print_result tr4 (centerBuilding, centerCoords,
                       totalDistance1, path1, totalDistance2, path2)))))))))))"

text \<open>The pass from the two search terms typed in.\<close>

definition application_query ::
  "tie_break \<Rightarrow> dist_fn \<Rightarrow> center_fn \<Rightarrow> (int, Coordinates) std_map \<Rightarrow> FootwayInfo list \<Rightarrow>
     BuildingInfo list \<Rightarrow> (int, real) graph \<Rightarrow> string \<Rightarrow> string \<Rightarrow>
     (event list \<times> (error + outcome)) option" where
  "application_query tie distBetween2Points centerBetween2Points NodeMap Footways Buildings G
       person1Building person2Building =
     meeting_query tie distBetween2Points centerBetween2Points NodeMap Footways Buildings G
       (searchBuilding Buildings person1Building) (searchBuilding Buildings person2Building)"


text \<open>
  Stand-ins for the two geometric primitives in the examples: the sum of the differences
  in latitude and longitude, and the arithmetic midpoint.
\<close>

definition manhattan :: dist_fn where
  "manhattan lat1 long1 lat2 long2 = \<bar>lat1 - lat2\<bar> + \<bar>long1 - long2\<bar>"

definition halfway :: center_fn where
  "halfway lat1 long1 lat2 long2 = \<lparr>ID = 0, Lat = (lat1 + lat2) / 2, Lon = (long1 + long2) / 2\<rparr>"

text \<open>
  A map in two parts: the footway 1-2 and the footway 3-4, with no way between them. The
  graph is built as \<^verbatim>\<open>main\<close> builds it: a vertex per node in increasing order, and both
  directions of every footway segment.
\<close>

definition split_nodes :: "(int, Coordinates) std_map" where
  "split_nodes = [(1, \<lparr>ID = 1, Lat = 0, Lon = 10\<rparr>), (2, \<lparr>ID = 2, Lat = 0, Lon = 20\<rparr>),
                  (3, \<lparr>ID = 3, Lat = 0, Lon = 30\<rparr>), (4, \<lparr>ID = 4, Lat = 0, Lon = 40\<rparr>)]"

definition split_footways :: "FootwayInfo list" where
  "split_footways = [\<lparr>Nodes = [1, 2]\<rparr>, \<lparr>Nodes = [3, 4]\<rparr>]"

definition alpha_hall :: BuildingInfo where
  "alpha_hall = \<lparr>Fullname = ''Alpha Hall'', Abbrev = ''AH'', Coords = \<lparr>ID = 11, Lat = 0, Lon = 10\<rparr>\<rparr>"

definition beta_hall :: BuildingInfo where
  "beta_hall = \<lparr>Fullname = ''Beta Hall'', Abbrev = ''BH'', Coords = \<lparr>ID = 12, Lat = 0, Lon = 40\<rparr>\<rparr>"

definition gamma_hall :: BuildingInfo where
  "gamma_hall = \<lparr>Fullname = ''Gamma Hall'', Abbrev = ''GH'', Coords = \<lparr>ID = 13, Lat = 0, Lon = 24\<rparr>\<rparr>"

definition split_buildings :: "BuildingInfo list" where
  "split_buildings = [alpha_hall, beta_hall, gamma_hall]"

definition split_graph :: "(int, real) graph" where
  "split_graph = run_ops [AddVertex 1, AddVertex 2, AddVertex 3, AddVertex 4,
     AddEdge 1 2 10, AddEdge 2 1 10, AddEdge 3 4 10, AddEdge 4 3 10]"


text \<open>
  A map with three buildings that share their full name. The building nearest to the
  midpoint of the first two lies at the footway 5-6, which the footway 1-2 does not reach;
  node 3 is on no footway.
\<close>

definition same_name_nodes :: "(int, Coordinates) std_map" where
  "same_name_nodes = [(1, \<lparr>ID = 1, Lat = 0, Lon = 10\<rparr>), (2, \<lparr>ID = 2, Lat = 0, Lon = 20\<rparr>),
                  (3, \<lparr>ID = 3, Lat = 50, Lon = 50\<rparr>), (5, \<lparr>ID = 5, Lat = 10, Lon = 15\<rparr>),
                  (6, \<lparr>ID = 6, Lat = 10, Lon = 25\<rparr>)]"

definition same_name_footways :: "FootwayInfo list" where
  "same_name_footways = [\<lparr>Nodes = [1, 2]\<rparr>, \<lparr>Nodes = [5, 6]\<rparr>]"

definition residence_a :: BuildingInfo where
  "residence_a = \<lparr>Fullname = ''Residence Hall'', Abbrev = ''RA'', Coords = \<lparr>ID = 11, Lat = 0, Lon = 10\<rparr>\<rparr>"

definition residence_b :: BuildingInfo where
  "residence_b = \<lparr>Fullname = ''Residence Hall'', Abbrev = ''RB'', Coords = \<lparr>ID = 12, Lat = 0, Lon = 20\<rparr>\<rparr>"

definition residence_c :: BuildingInfo where
  "residence_c = \<lparr>Fullname = ''Residence Hall'', Abbrev = ''RC'',
     Coords = \<lparr>ID = 13, Lat = 4, Lon = 15\<rparr>\<rparr>"

definition same_name_buildings :: "BuildingInfo list" where
  "same_name_buildings = [residence_a, residence_b, residence_c]"

definition same_name_graph :: "(int, real) graph" where
  "same_name_graph = run_ops [AddVertex 1, AddVertex 2, AddVertex 3, AddVertex 5, AddVertex 6,
     AddEdge 1 2 10, AddEdge 2 1 10, AddEdge 5 6 10, AddEdge 6 5 10]"


text \<open>
  The same map with three buildings of different names: Island Hall is nearest to the
  midpoint of the other two and lies at the footway that they cannot reach.
\<close>

definition north_hall :: BuildingInfo where
  "north_hall = \<lparr>Fullname = ''North Hall'', Abbrev = ''NH'', Coords = \<lparr>ID = 11, Lat = 0, Lon = 10\<rparr>\<rparr>"

definition south_hall :: BuildingInfo where
  "south_hall = \<lparr>Fullname = ''South Hall'', Abbrev = ''SH'', Coords = \<lparr>ID = 12, Lat = 0, Lon = 20\<rparr>\<rparr>"

definition island_hall :: BuildingInfo where
  "island_hall = \<lparr>Fullname = ''Island Hall'', Abbrev = ''IH'', Coords = \<lparr>ID = 13, Lat = 4, Lon = 15\<rparr>\<rparr>"

definition retry_buildings :: "BuildingInfo list" where
  "retry_buildings = [north_hall, south_hall, island_hall]"

section \<open>Invariants of a run of Dijkstra\<close>

text \<open>
  What the proofs below say about graphs and about the states of a run. All weights of a
  graph are non-negative:
\<close>

definition nonneg_weights :: "(int, real) graph \<Rightarrow> bool" where
  "nonneg_weights G \<longleftrightarrow> (\<forall>a b w. getWeight G a b = Some w \<longrightarrow> 0 \<le> w)"

fun nonneg_op :: "(int, real) graph_op \<Rightarrow> bool" where
  "nonneg_op (AddVertex v) = True"
| "nonneg_op (AddEdge a b w) = (0 \<le> w)"

text \<open>
  The invariant of the main loop speaks about the distances \<open>D\<close> and predecessors \<open>P\<close> as
  maps, the entries \<open>Q\<close> of the queue as a set, and the visited set \<open>S\<close>. \<open>rank\<close> numbers
  the visited vertices in the order of their visits; it is not a variable of the code.
  \<^item> \<open>inv_keys\<close>: both maps have the vertices as keys; entries and visited vertices are
    vertices.
  \<^item> \<open>inv_pred\<close>: a predecessor other than \<open>- 1\<close> was visited, earlier than its vertex if
    that is visited too, and the distance of the vertex is the predecessor's plus the
    weight of the edge between them.
  \<^item> \<open>inv_done\<close>: a visited vertex has a distance other than \<open>INF_dbl\<close>, and no entry of the
    queue is below it.
  \<^item> \<open>inv_queue\<close>: no entry is below the distance of its vertex, and every vertex not yet
    visited has an entry with its distance.
  \<^item> \<open>inv_start\<close>: the start has distance 0 and no predecessor; no distance is negative.
\<close>

definition inv_keys :: "int set \<Rightarrow> (int \<rightharpoonup> real) \<Rightarrow> (int \<rightharpoonup> int) \<Rightarrow> entry set \<Rightarrow> int set \<Rightarrow> bool" where
  "inv_keys VS D P Q S \<longleftrightarrow> finite VS \<and> dom D = VS \<and> dom P = VS \<and> fst ` Q \<subseteq> VS \<and> S \<subseteq> VS"

definition inv_rank :: "(int \<Rightarrow> nat) \<Rightarrow> int set \<Rightarrow> bool" where
  "inv_rank rank S \<longleftrightarrow> (\<forall>x\<in>S. rank x < card S)"

definition inv_pred ::
  "(int, real) graph \<Rightarrow> (int \<Rightarrow> nat) \<Rightarrow> (int \<rightharpoonup> real) \<Rightarrow> (int \<rightharpoonup> int) \<Rightarrow> int set \<Rightarrow> bool" where
  "inv_pred G rank D P S \<longleftrightarrow>
     (\<forall>v p. P v = Some p \<longrightarrow> p \<noteq> - 1 \<longrightarrow>
        p \<in> S \<and> (v \<in> S \<longrightarrow> rank p < rank v) \<and>
        (\<exists>w dp dv. getWeight G p v = Some w \<and> D p = Some dp \<and> D v = Some dv \<and> dv = dp + w))"

definition inv_done :: "(int \<rightharpoonup> real) \<Rightarrow> entry set \<Rightarrow> int set \<Rightarrow> bool" where
  "inv_done D Q S \<longleftrightarrow>
     (\<forall>x\<in>S. \<forall>dx. D x = Some dx \<longrightarrow> dx \<noteq> INF_dbl \<and> (\<forall>e\<in>Q. dx \<le> snd e))"

definition inv_queue :: "int set \<Rightarrow> (int \<rightharpoonup> real) \<Rightarrow> entry set \<Rightarrow> int set \<Rightarrow> bool" where
  "inv_queue VS D Q S \<longleftrightarrow>
     (\<forall>e\<in>Q. \<forall>d. D (fst e) = Some d \<longrightarrow> d \<le> snd e) \<and>
     (\<forall>v\<in>VS. v \<notin> S \<longrightarrow> (\<forall>d. D v = Some d \<longrightarrow> (v, d) \<in> Q))"

definition inv_start :: "int \<Rightarrow> (int \<rightharpoonup> real) \<Rightarrow> (int \<rightharpoonup> int) \<Rightarrow> bool" where
  "inv_start startV D P \<longleftrightarrow>
     D startV = Some 0 \<and> P startV = Some (- 1) \<and> (\<forall>v d. D v = Some d \<longrightarrow> 0 \<le> d)"

definition dinv ::
  "(int, real) graph \<Rightarrow> int \<Rightarrow> (int \<Rightarrow> nat) \<Rightarrow> (int \<rightharpoonup> real) \<Rightarrow> (int \<rightharpoonup> int) \<Rightarrow> entry set \<Rightarrow>
     int set \<Rightarrow> bool" where
  "dinv G startV rank D P Q S \<longleftrightarrow>
     inv_keys (set (Vertices G)) D P Q S \<and> inv_rank rank S \<and> inv_pred G rank D P S \<and>
     inv_done D Q S \<and> inv_queue (set (Vertices G)) D Q S \<and> inv_start startV D P"

definition below :: "(int \<rightharpoonup> real) \<Rightarrow> int set \<Rightarrow> real \<Rightarrow> bool" where
  "below D S dc \<longleftrightarrow> (\<forall>x\<in>S. \<forall>dx. D x = Some dx \<longrightarrow> dx \<le> dc)"

abbreviation sinv :: "(int, real) graph \<Rightarrow> int \<Rightarrow> (int \<Rightarrow> nat) \<Rightarrow> dijkstra_state \<Rightarrow> bool" where
  "sinv G startV rank s \<equiv>
     dinv G startV rank (map_of (distances s)) (map_of (predecessors s))
       (set (content (unvisitedQ s))) (visitedVertices s)"

text \<open>What is left of the invariant when the loop has ended: the part without the queue.\<close>

definition final_inv ::
  "(int, real) graph \<Rightarrow> int \<Rightarrow> (int \<Rightarrow> nat) \<Rightarrow> dijkstra_state \<Rightarrow> bool" where
  "final_inv G startV rank s \<longleftrightarrow>
     inv_keys (set (Vertices G)) (map_of (distances s)) (map_of (predecessors s)) {}
       (visitedVertices s) \<and>
     inv_rank rank (visitedVertices s) \<and>
     inv_pred G rank (map_of (distances s)) (map_of (predecessors s)) (visitedVertices s) \<and>
     inv_done (map_of (distances s)) {} (visitedVertices s) \<and>
     inv_start startV (map_of (distances s)) (map_of (predecessors s))"

text \<open>The state after the first loop over the vertices \<open>X\<close>.\<close>

definition fresh :: "dijkstra_state \<Rightarrow> int set \<Rightarrow> bool" where
  "fresh s X \<longleftrightarrow>
     map_of (distances s) = (\<lambda>v. if v \<in> X then Some INF_dbl else None) \<and>
     map_of (predecessors s) = (\<lambda>v. if v \<in> X then Some (- 1) else None) \<and>
     set (content (unvisitedQ s)) = (\<lambda>v. (v, INF_dbl)) ` X \<and>
     visitedVertices s = {}"

text \<open>
  The second half of the invariant is about shortest walks. \<open>Pend\<close> holds the edges out of
  the vertex being visited that the inner loop has not looked at yet.
  \<^item> \<open>inv_root\<close>: when \<open>- 1\<close> is not a vertex, a vertex other than the start whose
    predecessor is still \<open>- 1\<close> still has the distance \<open>INF_dbl\<close>.
  \<^item> \<open>inv_first\<close>: before the first visit only the start has a distance other than
    \<open>INF_dbl\<close>; afterwards the start is visited.
  \<^item> \<open>inv_lower\<close>: no walk from the start to a visited vertex is lighter than the distance
    of that vertex.
  \<^item> \<open>inv_relaxed\<close>: an edge out of a visited vertex is pending, or the distance at its
    head is at most the distance at its tail plus its weight.
\<close>

definition inv_root :: "int set \<Rightarrow> int \<Rightarrow> (int \<rightharpoonup> real) \<Rightarrow> (int \<rightharpoonup> int) \<Rightarrow> bool" where
  "inv_root VS startV D P \<longleftrightarrow>
     (- 1 \<notin> VS \<longrightarrow> (\<forall>v. v \<noteq> startV \<longrightarrow> P v = Some (- 1) \<longrightarrow> D v = Some INF_dbl))"

definition inv_first :: "int \<Rightarrow> (int \<rightharpoonup> real) \<Rightarrow> int set \<Rightarrow> bool" where
  "inv_first startV D S \<longleftrightarrow>
     (S = {} \<longrightarrow> (\<forall>v d. v \<noteq> startV \<longrightarrow> D v = Some d \<longrightarrow> d = INF_dbl)) \<and>
     (S \<noteq> {} \<longrightarrow> startV \<in> S)"

definition inv_lower :: "(int, real) graph \<Rightarrow> int \<Rightarrow> (int \<rightharpoonup> real) \<Rightarrow> int set \<Rightarrow> bool" where
  "inv_lower G startV D S \<longleftrightarrow>
     (\<forall>x\<in>S. \<forall>p w. is_walk G startV x p \<longrightarrow> path_weight G p = Some w \<longrightarrow>
        (\<exists>dx. D x = Some dx \<and> dx \<le> w))"

definition inv_relaxed ::
  "(int, real) graph \<Rightarrow> (int \<rightharpoonup> real) \<Rightarrow> int set \<Rightarrow> (int \<times> int) set \<Rightarrow> bool" where
  "inv_relaxed G D S Pend \<longleftrightarrow>
     (\<forall>x\<in>S. \<forall>y w. getWeight G x y = Some w \<longrightarrow>
        (x, y) \<in> Pend \<or> (\<exists>dx dy. D x = Some dx \<and> D y = Some dy \<and> dy \<le> dx + w))"

definition oinv ::
  "(int, real) graph \<Rightarrow> int \<Rightarrow> (int \<rightharpoonup> real) \<Rightarrow> (int \<rightharpoonup> int) \<Rightarrow> int set \<Rightarrow> (int \<times> int) set \<Rightarrow> bool" where
  "oinv G startV D P S Pend \<longleftrightarrow>
     inv_root (set (Vertices G)) startV D P \<and> inv_first startV D S \<and>
     inv_lower G startV D S \<and> inv_relaxed G D S Pend"

abbreviation soinv :: "(int, real) graph \<Rightarrow> int \<Rightarrow> dijkstra_state \<Rightarrow> (int \<times> int) set \<Rightarrow> bool" where
  "soinv G startV s Pend \<equiv>
     oinv G startV (map_of (distances s)) (map_of (predecessors s)) (visitedVertices s) Pend"

text \<open>Every vertex that was never visited is at distance \<open>INF_dbl\<close> or more.\<close>

definition unvisited_far :: "dijkstra_state \<Rightarrow> bool" where
  "unvisited_far s \<longleftrightarrow>
     (\<forall>y dy. y \<notin> visitedVertices s \<longrightarrow> map_of (distances s) y = Some dy \<longrightarrow> INF_dbl \<le> dy)"

text \<open>The passes of the retry loop in a record of a query: one per excluded center.\<close>

fun is_exclusion :: "event \<Rightarrow> bool" where
  "is_exclusion (CenterExcluded n) = True"
| "is_exclusion e = False"

definition retry_count :: "event list \<Rightarrow> nat" where
  "retry_count tr = length (filter is_exclusion tr)"

section \<open>Properties of the graph\<close>

subsection \<open>The scans of addEdge and getWeight\<close>

lemma overwriteEdge_None: "overwriteEdge to w es = None \<longleftrightarrow> to \<notin> toVert ` set es"
  by (induction es) (auto split: option.splits)

lemma overwriteEdge_toVert: "overwriteEdge to w es = Some es' \<Longrightarrow> map toVert es' = map toVert es"
  by (induction es arbitrary: es') (auto split: option.splits if_splits)

lemma findWeight_overwriteEdge: "overwriteEdge to w es = Some es' \<Longrightarrow> findWeight to es' = Some w"
  by (induction es arbitrary: es') (auto split: option.splits if_splits)

lemma findWeight_overwriteEdge_other:
  "overwriteEdge to w es = Some es' \<Longrightarrow> t \<noteq> to \<Longrightarrow> findWeight t es' = findWeight t es"
  by (induction es arbitrary: es') (auto split: option.splits if_splits)

lemma findWeight_append_new:
  "to \<notin> toVert ` set es \<Longrightarrow> findWeight to (es @ [\<lparr>toVert = to, toWeight = w\<rparr>]) = Some w"
  by (induction es) auto

lemma findWeight_None: "findWeight to es = None \<longleftrightarrow> to \<notin> toVert ` set es"
  by (induction es) auto

subsection \<open>The representation invariant\<close>

lemma graph_inv_init: "graph_inv graph_init"
  by (simp add: graph_inv_def graph_init_def edges_def neighbors_def)

lemma edges_addVertex: "edges (snd (addVertex v g)) = edges g"
  by (auto simp: edges_def neighbors_def addVertex_def split: option.splits if_splits)

lemma graph_inv_addVertex:
  assumes "graph_inv g"
  shows "graph_inv (snd (addVertex v g))"
proof (cases "edgeMap g v")
  case (Some es)
  then show ?thesis using assms by (simp add: addVertex_def)
next
  case None
  have e: "edges (snd (addVertex v g)) = edges g" by (rule edges_addVertex)
  from None assms have nv: "v \<notin> set (Vertices g)" by (auto simp: graph_inv_def)
  have g': "snd (addVertex v g) = g\<lparr>edgeMap := (edgeMap g)(v \<mapsto> []),
      Vertices := Vertices g @ [v], vertCount := vertCount g + 1\<rparr>"
    using None by (simp add: addVertex_def)
  have adj: "distinct (map toVert es) \<and> toVert ` set es \<subseteq> dom (edgeMap (snd (addVertex v g)))"
    if "edgeMap (snd (addVertex v g)) u = Some es" for u es
  proof (cases "u = v")
    case True
    with that show ?thesis by (simp add: g')
  next
    case False
    with that have "edgeMap g u = Some es" by (simp add: g')
    with assms have "distinct (map toVert es) \<and> toVert ` set es \<subseteq> dom (edgeMap g)"
      unfolding graph_inv_def by blast
    then show ?thesis by (auto simp: g')
  qed
  have rest: "distinct (Vertices (snd (addVertex v g))) \<and>
     set (Vertices (snd (addVertex v g))) = dom (edgeMap (snd (addVertex v g))) \<and>
     vertCount (snd (addVertex v g)) = int (length (Vertices (snd (addVertex v g)))) \<and>
     finite (edges (snd (addVertex v g))) \<and>
     edgeCount (snd (addVertex v g)) = int (card (edges (snd (addVertex v g))))"
    unfolding e using assms nv by (auto simp: g' graph_inv_def)
  from adj rest show ?thesis unfolding graph_inv_def by blast
qed

lemma Vertices_addVertex:
  "graph_inv g \<Longrightarrow> set (Vertices (snd (addVertex v g))) = insert v (set (Vertices g))"
  by (auto simp: addVertex_def graph_inv_def)

lemma Vertices_addEdge: "Vertices (snd (addEdge a b w g)) = Vertices g"
  by (auto simp: addEdge_def split: option.splits)

lemma vertCount_addEdge: "vertCount (snd (addEdge a b w g)) = vertCount g"
  by (auto simp: addEdge_def split: option.splits)

lemma dom_addEdge: "dom (edgeMap (snd (addEdge a b w g))) = dom (edgeMap g)"
  by (auto simp: addEdge_def split: option.splits if_splits)

lemma edgeMap_addEdge_cases:
  "edgeMap (snd (addEdge a b w g)) v = Some es' \<Longrightarrow>
     edgeMap g v = Some es' \<or>
     (v = a \<and> edgeMap g b \<noteq> None \<and> (\<exists>es. edgeMap g a = Some es \<and>
        (overwriteEdge b w es = Some es' \<or>
         (overwriteEdge b w es = None \<and> es' = es @ [\<lparr>toVert = b, toWeight = w\<rparr>]))))"
  by (auto simp: addEdge_def split: option.splits if_splits)

lemma neighbors_addEdge:
  "neighbors (snd (addEdge a b w g)) x =
     (if x = a \<and> edgeMap g a \<noteq> None \<and> edgeMap g b \<noteq> None
      then insert b (neighbors g a) else neighbors g x)"
proof (cases "edgeMap g a = None \<or> edgeMap g b = None")
  case True
  then show ?thesis by (auto simp: addEdge_def)
next
  case False
  then obtain es where es: "edgeMap g a = Some es" by auto
  show ?thesis
  proof (cases "overwriteEdge b w es")
    case None
    with es False show ?thesis
      by (auto simp: addEdge_def neighbors_def)
  next
    case (Some es')
    from overwriteEdge_toVert[OF Some] have "toVert ` set es' = toVert ` set es"
      by (metis list.set_map)
    moreover have "b \<in> toVert ` set es" using Some overwriteEdge_None[of b w es] by auto
    ultimately show ?thesis using Some es False
      by (auto simp: addEdge_def neighbors_def)
  qed
qed

lemma edges_addEdge:
  "edges (snd (addEdge a b w g)) =
     (if edgeMap g a \<noteq> None \<and> edgeMap g b \<noteq> None then insert (a, b) (edges g) else edges g)"
  by (auto simp: edges_def neighbors_addEdge split: if_splits)

lemma edgeCount_addEdge:
  "edgeCount (snd (addEdge a b w g)) =
     (if edgeMap g a \<noteq> None \<and> edgeMap g b \<noteq> None \<and> (a, b) \<notin> edges g
      then edgeCount g + 1 else edgeCount g)"
proof (cases "edgeMap g a = None \<or> edgeMap g b = None")
  case True
  then show ?thesis by (auto simp: addEdge_def)
next
  case False
  then obtain es where es: "edgeMap g a = Some es" by auto
  have "(a, b) \<in> edges g \<longleftrightarrow> overwriteEdge b w es \<noteq> None"
    using es by (simp add: edges_def neighbors_def overwriteEdge_None)
  with es False show ?thesis
    by (auto simp: addEdge_def split: option.splits)
qed

lemma graph_inv_addEdge:
  assumes "graph_inv g"
  shows "graph_inv (snd (addEdge a b w g))"
proof -
  let ?g = "snd (addEdge a b w g)"
  have adj: "distinct (map toVert es') \<and> toVert ` set es' \<subseteq> dom (edgeMap ?g)"
    if "edgeMap ?g v = Some es'" for v es'
  proof -
    from edgeMap_addEdge_cases[OF that]
    consider "edgeMap g v = Some es'"
      | es where "v = a" "edgeMap g b \<noteq> None" "edgeMap g a = Some es" "overwriteEdge b w es = Some es'"
      | es where "v = a" "edgeMap g b \<noteq> None" "edgeMap g a = Some es" "overwriteEdge b w es = None"
          "es' = es @ [\<lparr>toVert = b, toWeight = w\<rparr>]"
      by blast
    then show ?thesis
    proof cases
      case 1
      with assms show ?thesis by (simp add: graph_inv_def dom_addEdge)
    next
      case 2
      from overwriteEdge_toVert[OF 2(4)] have m: "map toVert es' = map toVert es" .
      then have "toVert ` set es' = toVert ` set es" by (metis list.set_map)
      with m 2 assms show ?thesis by (simp add: graph_inv_def dom_addEdge)
    next
      case 3
      then have "b \<notin> toVert ` set es" by (simp add: overwriteEdge_None)
      with 3 assms show ?thesis by (auto simp: graph_inv_def dom_addEdge)
    qed
  qed
  have cnt: "finite (edges ?g) \<and> edgeCount ?g = int (card (edges ?g))"
    using assms by (auto simp: graph_inv_def edges_addEdge edgeCount_addEdge insert_absorb)
  have rest: "distinct (Vertices ?g) \<and> set (Vertices ?g) = dom (edgeMap ?g) \<and>
      vertCount ?g = int (length (Vertices ?g))"
    using assms by (simp add: graph_inv_def Vertices_addEdge vertCount_addEdge dom_addEdge)
  from adj cnt rest show ?thesis unfolding graph_inv_def by blast
qed

lemma run_ops_snoc: "run_ops (ops @ [x]) = apply_op (run_ops ops) x"
  by (simp add: run_ops_def)

lemma graph_inv_run_ops: "graph_inv (run_ops ops)"
proof (induction ops rule: rev_induct)
  case Nil
  show ?case by (simp add: run_ops_def graph_inv_init)
next
  case (snoc x xs)
  then show ?case
    by (cases x) (simp_all add: run_ops_snoc graph_inv_addVertex graph_inv_addEdge)
qed

lemma Vertices_run_ops: "set (Vertices (run_ops ops)) = {v. AddVertex v \<in> set ops}"
proof (induction ops rule: rev_induct)
  case Nil
  show ?case by (simp add: run_ops_def graph_init_def)
next
  case (snoc x xs)
  show ?case
  proof (cases x)
    case (AddVertex v)
    with snoc Vertices_addVertex[OF graph_inv_run_ops, of v xs] show ?thesis
      by (auto simp: run_ops_snoc)
  next
    case (AddEdge a b w)
    with snoc show ?thesis by (auto simp: run_ops_snoc Vertices_addEdge)
  qed
qed

lemma getWeight_edges:
  "graph_inv g \<Longrightarrow> (\<exists>w. getWeight g a b = Some w) \<longleftrightarrow> (a, b) \<in> edges g"
proof -
  assume inv: "graph_inv g"
  show ?thesis
  proof (cases "edgeMap g a")
    case None
    then show ?thesis by (simp add: getWeight_def edges_def neighbors_def)
  next
    case (Some es)
    have "findWeight b es \<noteq> None \<longleftrightarrow> b \<in> toVert ` set es" by (simp add: findWeight_None)
    moreover have "b \<in> toVert ` set es \<Longrightarrow> edgeMap g b \<noteq> None"
      using inv Some unfolding graph_inv_def by blast
    ultimately show ?thesis using Some
      by (auto simp: getWeight_def edges_def neighbors_def)
  qed
qed

subsection \<open>Adding and overwriting an edge\<close>

text \<open>
  C6. In a graph that holds the vertices \<open>a\<close> and \<open>b\<close>, \<open>addEdge a b w\<close> returns true and
  \<open>getWeight a b\<close> then yields \<open>w\<close>; a second \<open>addEdge a b w2\<close> returns true, makes
  \<open>getWeight a b\<close> yield \<open>w2\<close> and leaves \<open>NumEdges\<close> as it was after the first call.
\<close>

theorem addEdge_getWeight_overwrite:
  assumes "edgeMap g a \<noteq> None" and "edgeMap g b \<noteq> None"
    and "addEdge a b w g = (r1, g1)" and "addEdge a b w2 g1 = (r2, g2)"
  shows "r1 \<and> getWeight g1 a b = Some w \<and> r2 \<and> getWeight g2 a b = Some w2 \<and>
         NumEdges g2 = NumEdges g1"
proof -
  from assms(1) obtain es where es: "edgeMap g a = Some es" by auto
  from assms(2) obtain bs where bs: "edgeMap g b = Some bs" by auto
  have 1: "r1 \<and> getWeight g1 a b = Some w \<and> (\<exists>es1. edgeMap g1 a = Some es1 \<and> b \<in> toVert ` set es1)
      \<and> edgeMap g1 b \<noteq> None"
  proof (cases "overwriteEdge b w es")
    case None
    then have "b \<notin> toVert ` set es" by (simp add: overwriteEdge_None)
    with None es bs assms(3) show ?thesis
      by (auto simp: addEdge_def getWeight_def findWeight_append_new)
  next
    case (Some es')
    from overwriteEdge_toVert[OF Some] have "toVert ` set es' = toVert ` set es"
      by (metis list.set_map)
    moreover have "b \<in> toVert ` set es" using Some overwriteEdge_None[of b w es] by auto
    ultimately show ?thesis using Some es bs assms(3) findWeight_overwriteEdge[OF Some]
      by (auto simp: addEdge_def getWeight_def)
  qed
  then obtain es1 where es1: "edgeMap g1 a = Some es1" "b \<in> toVert ` set es1" by auto
  from 1 obtain bs1 where bs1: "edgeMap g1 b = Some bs1" by auto
  from es1(2) obtain es2 where ow: "overwriteEdge b w2 es1 = Some es2"
    using overwriteEdge_None[of b w2 es1] by auto
  have "r2 \<and> getWeight g2 a b = Some w2 \<and> NumEdges g2 = NumEdges g1"
    using ow es1 bs1 assms(4) findWeight_overwriteEdge[OF ow]
    by (auto simp: addEdge_def getWeight_def NumEdges_def)
  with 1 show ?thesis by simp
qed

theorem addEdge_getWeight_overwrite_witness:
  "edgeMap two_vertices 1 \<noteq> None \<and> edgeMap two_vertices 2 \<noteq> None \<and>
   fst (addEdge 1 2 5 two_vertices) \<and>
   getWeight (snd (addEdge 1 2 5 two_vertices)) 1 2 = Some 5 \<and>
   fst (addEdge 1 2 7 (snd (addEdge 1 2 5 two_vertices))) \<and>
   getWeight (snd (addEdge 1 2 7 (snd (addEdge 1 2 5 two_vertices)))) 1 2 = Some 7 \<and>
   NumEdges (snd (addEdge 1 2 7 (snd (addEdge 1 2 5 two_vertices)))) =
     NumEdges (snd (addEdge 1 2 5 two_vertices))"
proof -
  have v: "edgeMap two_vertices 1 \<noteq> None" "edgeMap two_vertices 2 \<noteq> None"
    by (simp_all add: two_vertices_def run_ops_def graph_init_def addVertex_def)
  from addEdge_getWeight_overwrite[OF v, of 5 "fst (addEdge 1 2 5 two_vertices)"
      "snd (addEdge 1 2 5 two_vertices)" 7
      "fst (addEdge 1 2 7 (snd (addEdge 1 2 5 two_vertices)))"
      "snd (addEdge 1 2 7 (snd (addEdge 1 2 5 two_vertices)))"] v
  show ?thesis by simp
qed

subsection \<open>Adding an edge at a missing vertex\<close>

text \<open>
  C7. When \<open>from\<close> or \<open>to\<close> is not a vertex of the graph, \<open>addEdge\<close> returns false and the
  graph it leaves is the graph it was given: the counters, the vertices and every stored
  edge and weight are the same.
\<close>

theorem addEdge_missing_vertex:
  assumes "edgeMap g from = None \<or> edgeMap g to = None"
  shows "addEdge from to w g = (False, g) \<and>
         NumVertices (snd (addEdge from to w g)) = NumVertices g \<and>
         NumEdges (snd (addEdge from to w g)) = NumEdges g \<and>
         (\<forall>a b. getWeight (snd (addEdge from to w g)) a b = getWeight g a b)"
  using assms by (auto simp: addEdge_def)

theorem addEdge_missing_vertex_witness:
  "(edgeMap two_vertices 1 = None \<or> edgeMap two_vertices 3 = None) \<and>
   addEdge 1 3 5 two_vertices = (False, two_vertices) \<and>
   NumEdges (snd (addEdge 1 3 5 two_vertices)) = 0 \<and>
   NumVertices (snd (addEdge 1 3 5 two_vertices)) = 2"
proof -
  have v: "edgeMap two_vertices 1 = None \<or> edgeMap two_vertices 3 = None"
    by (simp add: two_vertices_def run_ops_def graph_init_def addVertex_def)
  have "NumEdges two_vertices = 0" "NumVertices two_vertices = 2"
    by (simp_all add: two_vertices_def run_ops_def graph_init_def addVertex_def
        NumEdges_def NumVertices_def)
  with addEdge_missing_vertex[OF v, of 5] v show ?thesis by simp
qed

subsection \<open>Invariants of every graph built from the empty one\<close>

text \<open>
  C8. After any sequence of \<open>addVertex\<close> and \<open>addEdge\<close> calls on the empty graph: the
  vertex vector has no repetition and holds exactly the keys of the edge map; no adjacency
  vector holds two entries to the same neighbour; \<open>NumVertices\<close> is the number of distinct
  vertices that were added; \<open>NumEdges\<close> is the number of distinct pairs \<open>(from, to)\<close> that
  have a weight, however often a pair was overwritten.
\<close>

theorem run_ops_invariants:
  "distinct (Vertices (run_ops ops)) \<and>
   set (Vertices (run_ops ops)) = dom (edgeMap (run_ops ops)) \<and>
   (\<forall>v es. edgeMap (run_ops ops) v = Some es \<longrightarrow> distinct (map toVert es)) \<and>
   NumVertices (run_ops ops) = int (card {v. AddVertex v \<in> set ops}) \<and>
   NumEdges (run_ops ops) = int (card {(a, b). \<exists>w. getWeight (run_ops ops) a b = Some w})"
proof -
  let ?g = "run_ops ops"
  have inv: "graph_inv ?g" by (rule graph_inv_run_ops)
  have "{(a, b). \<exists>w. getWeight ?g a b = Some w} = edges ?g"
    using getWeight_edges[OF inv] by auto
  moreover have "int (length (Vertices ?g)) = int (card {v. AddVertex v \<in> set ops})"
    using inv distinct_card[of "Vertices ?g"] by (simp add: graph_inv_def Vertices_run_ops)
  ultimately show ?thesis using inv
    by (simp add: graph_inv_def NumVertices_def NumEdges_def)
qed

theorem run_ops_invariants_witness:
  "edgeMap (run_ops [AddVertex 1, AddVertex 2, AddEdge 1 2 5, AddEdge 1 2 7, AddVertex 1,
      AddEdge 1 3 4]) 1 = Some [\<lparr>toVert = 2::int, toWeight = 7::real\<rparr>] \<and>
   distinct (map toVert [\<lparr>toVert = 2::int, toWeight = 7::real\<rparr>]) \<and>
   NumVertices (run_ops [AddVertex (1::int), AddVertex 2, AddEdge 1 2 (5::real), AddEdge 1 2 7,
      AddVertex 1, AddEdge 1 3 4]) = 2 \<and>
   NumEdges (run_ops [AddVertex (1::int), AddVertex 2, AddEdge 1 2 (5::real), AddEdge 1 2 7,
      AddVertex 1, AddEdge 1 3 4]) = 1"
  using run_ops_invariants[of "[AddVertex (1::int), AddVertex 2, AddEdge 1 2 (5::real),
      AddEdge 1 2 7, AddVertex 1, AddEdge 1 3 4]"]
  by (simp add: run_ops_def graph_init_def addVertex_def addEdge_def NumVertices_def
      NumEdges_def)

section \<open>Properties of Dijkstra\<close>

subsection \<open>The run on two vertices without an edge\<close>

lemma INF_dbl_pos: "0 < INF_dbl"
  by (simp add: INF_dbl_def)

lemma INF_dbl_simps [simp]:
  "INF_dbl \<noteq> 0" "0 \<noteq> INF_dbl" "0 < INF_dbl" "\<not> INF_dbl < 0" "\<not> INF_dbl \<le> 0" "0 \<le> INF_dbl"
  "INF_dbl \<noteq> - 1" "- 1 \<noteq> INF_dbl"
  using INF_dbl_pos by auto

text \<open>Comparisons of \<open>INF_dbl\<close> with the small numbers of the examples.\<close>

lemma INF_dbl_large: "1000 < INF_dbl"
  by (simp add: INF_dbl_def)

lemma INF_dbl_cmp:
  "x < 1000 \<Longrightarrow> x < INF_dbl"
  "x < 1000 \<Longrightarrow> \<not> INF_dbl < x"
  "x < 1000 \<Longrightarrow> \<not> INF_dbl \<le> x"
  "x < 1000 \<Longrightarrow> x \<le> INF_dbl"
  "x < 1000 \<Longrightarrow> INF_dbl \<noteq> x"
  "x < 1000 \<Longrightarrow> x \<noteq> INF_dbl"
  using INF_dbl_large by auto

text \<open>The definitions that evaluate a call of \<open>Dijkstra\<close> on a concrete graph.\<close>

lemmas dijkstra_eval =
  Dijkstra_def Let_def map_emplace_def map_at_def map_erase_def map_assign_def
  pq_push_def pq_init_def dijkstra_init_def main_loop.simps pq_empty_def pq_top_def pq_pop_def
  top_candidates_def backTrace_loop.simps INF_dbl_cmp

lemma two_isolated_vertices: "getVertices two_isolated = [1, 2]"
  by (simp add: two_isolated_def run_ops_def graph_init_def addVertex_def getVertices_def)

lemma two_isolated_neighbors: "neighbors two_isolated v = {}"
  by (simp add: two_isolated_def run_ops_def graph_init_def addVertex_def neighbors_def)

lemma two_isolated_setup:
  "setup_loop (getVertices two_isolated) dijkstra_init =
     Inr \<lparr>unvisitedQ = \<lparr>history = [Push (1, INF_dbl), Push (2, INF_dbl)],
                          content = [(1, INF_dbl), (2, INF_dbl)]\<rparr>,
          distances = [(1, INF_dbl), (2, INF_dbl)],
          predecessors = [(1, - 1), (2, - 1)],
          visitedVertices = {}, edgeWeight = None\<rparr>"
  by (simp add: two_isolated_vertices dijkstra_init_def pq_init_def pq_push_def
      map_emplace_def map_at_def Let_def)

lemma pq_top_single: "top_candidates (content q) = [e] \<Longrightarrow> pq_top tie q = e"
  by (simp add: pq_top_def)

lemma pq_top_two:
  assumes "top_candidates (content q) = [a, b]"
  shows "pq_top tie q = a \<or> pq_top tie q = b"
proof -
  from assms have "content q \<noteq> []" by (auto simp: top_candidates_def)
  from pq_top_in_candidates[OF this, of tie] assms show ?thesis by simp
qed

lemma two_isolated_main:
  "\<exists>s. main_loop tie two_isolated 2
     \<lparr>unvisitedQ = \<lparr>history = [Push (1, INF_dbl), Push (2, INF_dbl), Push (1, 0)],
                     content = [(1, INF_dbl), (2, INF_dbl), (1, 0)]\<rparr>,
      distances = [(1, 0), (2, INF_dbl)],
      predecessors = [(1, - 1), (2, - 1)],
      visitedVertices = {}, edgeWeight = None\<rparr> None = Inr (s, Some 2) \<and>
    distances s = [(1, 0), (2, INF_dbl)] \<and> predecessors s = [(1, - 1), (2, - 1)]"
proof -
  define q0 where "q0 = \<lparr>history = [Push (1, INF_dbl), Push (2, INF_dbl), Push (1, 0)],
                     content = [(1, INF_dbl), (2, INF_dbl), (1::int, 0::real)]\<rparr>"
  define q1 where "q1 = \<lparr>history = [Push (1, INF_dbl), Push (2, INF_dbl), Push (1, 0), Pop],
                     content = [(1, INF_dbl), (2::int, INF_dbl)]\<rparr>"
  define q2 where "q2 = \<lparr>history = [Push (1, INF_dbl), Push (2, INF_dbl), Push (1, 0), Pop, Pop],
                     content = [(2::int, INF_dbl)]\<rparr>"
  have t0: "pq_top tie q0 = (1, 0)"
    by (rule pq_top_single) (simp add: q0_def top_candidates_def)
  have p0: "pq_pop tie q0 = q1"
    by (simp add: pq_pop_def t0) (simp add: q0_def q1_def)
  have t1: "pq_top tie q1 = (1, INF_dbl) \<or> pq_top tie q1 = (2, INF_dbl)"
    by (rule pq_top_two) (simp add: q1_def top_candidates_def)
  have p1: "pq_top tie q1 = (1, INF_dbl) \<Longrightarrow> pq_pop tie q1 = q2"
    by (simp add: pq_pop_def) (simp add: q1_def q2_def)
  have t2: "pq_top tie q2 = (2, INF_dbl)"
    by (rule pq_top_single) (simp add: q2_def top_candidates_def)
  have e0: "\<not> pq_empty q0" "\<not> pq_empty q1" "\<not> pq_empty q2"
    by (simp_all add: pq_empty_def q0_def q1_def q2_def)
  have "\<exists>s. main_loop tie two_isolated 2
     \<lparr>unvisitedQ = q0, distances = [(1, 0), (2, INF_dbl)],
      predecessors = [(1, - 1), (2, - 1)],
      visitedVertices = {}, edgeWeight = None\<rparr> None = Inr (s, Some 2) \<and>
    distances s = [(1, 0), (2, INF_dbl)] \<and> predecessors s = [(1, - 1), (2, - 1)]"
    using t1
  proof
    assume a: "pq_top tie q1 = (1, INF_dbl)"
    show ?thesis
      by (simp add: main_loop.simps e0 t0 p0 a p1[OF a] t2 map_at_def two_isolated_neighbors Let_def)
  next
    assume a: "pq_top tie q1 = (2, INF_dbl)"
    show ?thesis
      by (simp add: main_loop.simps e0 t0 p0 a map_at_def two_isolated_neighbors Let_def)
  qed
  then show ?thesis by (simp add: q0_def)
qed

lemma two_isolated_Dijkstra:
  "Dijkstra tie two_isolated 1 2 [] = Some (Inr (INF_dbl, [2]))"
proof -
  from two_isolated_main[of tie] obtain s where s: "main_loop tie two_isolated 2
     \<lparr>unvisitedQ = \<lparr>history = [Push (1, INF_dbl), Push (2, INF_dbl), Push (1, 0)],
                     content = [(1, INF_dbl), (2, INF_dbl), (1, 0)]\<rparr>,
      distances = [(1, 0), (2, INF_dbl)],
      predecessors = [(1, - 1), (2, - 1)],
      visitedVertices = {}, edgeWeight = None\<rparr> None = Inr (s, Some 2)"
    "distances s = [(1, 0), (2, INF_dbl)]" "predecessors s = [(1, - 1), (2, - 1)]"
    by blast
  show ?thesis
    by (simp add: Dijkstra_def two_isolated_setup map_at_def map_assign_def pq_push_def s
        backTrace_loop.simps)
qed

subsection \<open>The keys of the containers\<close>



lemma map_at_key: "k \<in> fst ` set m \<Longrightarrow> \<exists>x. map_at m k = Inr x"
  by (cases "map_of m k") (auto simp: map_at_def map_of_eq_None_iff)

lemma keys_ok_dist:
  assumes "keys_ok G s" and "v \<in> set (Vertices G)"
  shows "\<exists>d. map_at (distances s) v = Inr d"
proof -
  from assms have "v \<in> fst ` set (distances s)" unfolding keys_ok_def by simp
  then show ?thesis by (rule map_at_key)
qed

lemma keys_ok_pred:
  assumes "keys_ok G s" and "v \<in> set (Vertices G)"
  shows "\<exists>p. map_at (predecessors s) v = Inr p"
proof -
  from assms have "v \<in> fst ` set (predecessors s)" unfolding keys_ok_def by simp
  then show ?thesis by (rule map_at_key)
qed

lemma keys_ok_queue:
  assumes "keys_ok G s" and "e \<in> set (content (unvisitedQ s))"
  shows "fst e \<in> set (Vertices G)"
  using assms unfolding keys_ok_def by blast

lemma getWeight_neighbor:
  assumes "graph_inv G" and "v \<in> neighbors G c"
  shows "\<exists>w. getWeight G c v = Some w"
  using getWeight_edges[OF assms(1), of c v] assms(2) by (simp add: edges_def)

lemma neighbors_in_Vertices:
  assumes "graph_inv G" and "v \<in> neighbors G c"
  shows "v \<in> set (Vertices G)"
proof -
  from assms(2) obtain es where es: "edgeMap G c = Some es" "v \<in> toVert ` set es"
    by (auto simp: neighbors_def split: option.splits)
  with assms(1) have "v \<in> dom (edgeMap G)" unfolding graph_inv_def by blast
  with assms(1) show ?thesis by (simp add: graph_inv_def)
qed

lemma relax_loop_keys_ok:
  assumes "graph_inv G" and "c \<in> set (Vertices G)"
  shows "set vs \<subseteq> neighbors G c \<Longrightarrow> keys_ok G s \<Longrightarrow>
           \<exists>s'. relax_loop G c vs s = Inr s' \<and> keys_ok G s'"
proof (induction vs arbitrary: s)
  case Nil
  then show ?case by simp
next
  case (Cons v vs)
  from Cons.prems have vn: "v \<in> neighbors G c" and vs: "set vs \<subseteq> neighbors G c" by auto
  from getWeight_neighbor[OF assms(1) vn] obtain w where w: "getWeight G c v = Some w" ..
  from neighbors_in_Vertices[OF assms(1) vn] have vV: "v \<in> set (Vertices G)" .
  from keys_ok_dist[OF Cons.prems(2) assms(2)]
  obtain dc where dc: "map_at (distances s) c = Inr dc" ..
  from keys_ok_dist[OF Cons.prems(2) vV]
  obtain da where da: "map_at (distances s) v = Inr da" ..
  let ?s1 = "s\<lparr>edgeWeight := Some w\<rparr>"
  let ?s2 = "?s1\<lparr>distances := map_emplace v (dc + w) (map_erase v (distances ?s1)),
                    predecessors := map_emplace v c (map_erase v (predecessors ?s1)),
                    unvisitedQ := pq_push (v, dc + w) (unvisitedQ ?s1)\<rparr>"
  have k1: "keys_ok G ?s1" using Cons.prems(2) by (simp add: keys_ok_def)
  have k2: "keys_ok G ?s2" using Cons.prems(2) vV
    by (simp add: keys_ok_def pq_push_def insert_absorb)
  show ?case
  proof (cases "dc + w < da")
    case True
    from Cons.IH[OF vs k2] True w dc da show ?thesis by (simp add: Let_def)
  next
    case False
    from Cons.IH[OF vs k1] False w dc da show ?thesis by (simp add: Let_def)
  qed
qed

lemma keys_ok_pop:
  assumes "keys_ok G s"
  shows "keys_ok G (s\<lparr>unvisitedQ := pq_pop tie (unvisitedQ s)\<rparr>)"
proof -
  have "fst ` set (remove1 (pq_top tie (unvisitedQ s)) (content (unvisitedQ s)))
          \<subseteq> fst ` set (content (unvisitedQ s))"
    by (intro image_mono set_remove1_subset)
  also have "\<dots> \<subseteq> set (Vertices G)" using assms by (simp add: keys_ok_def)
  finally show ?thesis using assms by (simp add: keys_ok_def pq_pop_def)
qed

lemma main_loop_empty: "pq_empty (unvisitedQ s) \<Longrightarrow> main_loop tie G endV s cur = Inr (s, cur)"
  by (simp add: main_loop.simps)

lemma main_loop_step:
  assumes "\<not> pq_empty (unvisitedQ s)"
    and "c = fst (pq_top tie (unvisitedQ s))"
    and "s1 = s\<lparr>unvisitedQ := pq_pop tie (unvisitedQ s)\<rparr>"
    and "map_at (distances s1) c = Inr d"
  shows "main_loop tie G endV s cur =
     (if d = INF_dbl then Inr (s1, Some c)
      else if c \<in> visitedVertices s1 then main_loop tie G endV s1 (Some c)
      else (case relax_loop G c (sorted_list_of_set (neighbors G c))
                  (s1\<lparr>visitedVertices := insert c (visitedVertices s1)\<rparr>) of
              Inl e \<Rightarrow> Inl e
            | Inr s3 \<Rightarrow>
                if c = endV then Inr (s3, Some c) else main_loop tie G endV s3 (Some c)))"
  using assms(1,4) unfolding assms(2,3) by (subst main_loop.simps) (simp add: Let_def)

lemma main_loop_step_error:
  assumes "\<not> pq_empty (unvisitedQ s)"
    and "map_at (distances s) (fst (pq_top tie (unvisitedQ s))) = Inl e"
  shows "main_loop tie G endV s cur = Inl e"
  using assms by (subst main_loop.simps) (simp add: Let_def)

lemma main_loop_keys_ok:
  "graph_inv G \<Longrightarrow> keys_ok G s \<Longrightarrow> (cur = None \<longrightarrow> \<not> pq_empty (unvisitedQ s)) \<Longrightarrow>
         (\<forall>v. cur = Some v \<longrightarrow> v \<in> set (Vertices G)) \<Longrightarrow>
         \<exists>s' v. main_loop tie G endV s cur = Inr (s', Some v) \<and> v \<in> set (Vertices G)"
proof (induction tie G endV s cur rule: main_loop.induct)
  case (1 tie G endV s cur)
  show ?case
  proof (cases "pq_empty (unvisitedQ s)")
    case True
    with "1.prems" show ?thesis by (cases cur) (auto simp: main_loop_empty)
  next
    case False
    define c where "c = fst (pq_top tie (unvisitedQ s))"
    define s1 where "s1 = s\<lparr>unvisitedQ := pq_pop tie (unvisitedQ s)\<rparr>"
    from False have ne: "content (unvisitedQ s) \<noteq> []" by (simp add: pq_empty_def)
    from keys_ok_queue[OF "1.prems"(2) pq_top_in_content[OF ne, of tie]]
    have cV: "c \<in> set (Vertices G)" by (simp add: c_def)
    have k1: "keys_ok G s1" unfolding s1_def using "1.prems"(2) by (rule keys_ok_pop)
    from keys_ok_dist[OF k1 cV] obtain d where d: "map_at (distances s1) c = Inr d" ..
    note step = main_loop_step[OF False c_def s1_def d, of G endV cur]
    show ?thesis
    proof (cases "d = INF_dbl")
      case True
      with step cV show ?thesis by simp
    next
      case nINF: False
      show ?thesis
      proof (cases "c \<in> visitedVertices s1")
        case True
        from "1.IH"(1)[OF False c_def s1_def d nINF True "1.prems"(1) k1] cV
        obtain s' v where "main_loop tie G endV s1 (Some c) = Inr (s', Some v)" "v \<in> set (Vertices G)"
          by auto
        with step nINF True show ?thesis by simp
      next
        case nv: False
        define s2 where "s2 = s1\<lparr>visitedVertices := insert c (visitedVertices s1)\<rparr>"
        have k2: "keys_ok G s2" using k1 by (simp add: s2_def keys_ok_def)
        have "set (sorted_list_of_set (neighbors G c)) \<subseteq> neighbors G c"
          by (simp add: neighbors_def split: option.splits)
        from relax_loop_keys_ok[OF "1.prems"(1) cV this k2]
        obtain s3 where s3: "relax_loop G c (sorted_list_of_set (neighbors G c)) s2 = Inr s3"
          "keys_ok G s3" by auto
        note step' = step[folded s2_def]
        show ?thesis
        proof (cases "c = endV")
          case True
          from step' nINF nv s3 cV True show ?thesis by simp
        next
          case ne: False
          from "1.IH"(2)[OF False c_def s1_def d nINF nv s2_def s3(1) ne "1.prems"(1) s3(2)] cV
          obtain s' v where "main_loop tie G endV s3 (Some c) = Inr (s', Some v)" "v \<in> set (Vertices G)"
            by auto
          with step' nINF nv s3 ne show ?thesis by simp
        qed
      qed
    qed
  qed
qed

lemma keys_map_emplace: "fst ` set (map_emplace v x m) = insert v (fst ` set m)"
  by (auto simp: map_emplace_def map_of_eq_None_iff)

lemma setup_loop_Cons:
  "\<exists>dv. setup_loop (v # vs) s =
     setup_loop vs (s\<lparr>distances := map_emplace v INF_dbl (distances s),
                        predecessors := map_emplace v (- 1) (predecessors s),
                        unvisitedQ := pq_push (v, dv) (unvisitedQ s)\<rparr>)"
proof -
  have "v \<in> fst ` set (map_emplace v INF_dbl (distances s))"
    by (simp add: keys_map_emplace)
  from map_at_key[OF this]
  obtain dv where dv: "map_at (map_emplace v INF_dbl (distances s)) v = Inr dv" ..
  then have "setup_loop (v # vs) s =
     setup_loop vs (s\<lparr>distances := map_emplace v INF_dbl (distances s),
                        predecessors := map_emplace v (- 1) (predecessors s),
                        unvisitedQ := pq_push (v, dv) (unvisitedQ s)\<rparr>)"
    by (simp add: Let_def)
  then show ?thesis ..
qed


lemma setup_loop_keys:
  "\<exists>s'. setup_loop vs s = Inr s' \<and>
     keys_of s' = (fst ` set (distances s) \<union> set vs, fst ` set (predecessors s) \<union> set vs,
       fst ` set (content (unvisitedQ s)) \<union> set vs)"
proof (induction vs arbitrary: s)
  case Nil
  show ?case by (simp add: keys_of_def)
next
  case (Cons v vs)
  from setup_loop_Cons[of v vs s] obtain dv where
    dv: "setup_loop (v # vs) s =
     setup_loop vs (s\<lparr>distances := map_emplace v INF_dbl (distances s),
                        predecessors := map_emplace v (- 1) (predecessors s),
                        unvisitedQ := pq_push (v, dv) (unvisitedQ s)\<rparr>)" ..
  show ?case
    unfolding dv
    using Cons.IH[of "s\<lparr>distances := map_emplace v INF_dbl (distances s),
                        predecessors := map_emplace v (- 1) (predecessors s),
                        unvisitedQ := pq_push (v, dv) (unvisitedQ s)\<rparr>"]
    by (simp add: keys_map_emplace pq_push_def)
qed

lemma Dijkstra_missing_target_inv:
  assumes "graph_inv G" and "startV \<in> set (getVertices G)" and "endV \<notin> set (getVertices G)"
  shows "Dijkstra tie G startV endV path = Some (Inr (- 1, path))"
proof -
  from setup_loop_keys[of "getVertices G" dijkstra_init]
  obtain s1 where s1': "setup_loop (getVertices G) dijkstra_init = Inr s1"
    "keys_of s1 = (set (Vertices G), set (Vertices G), set (Vertices G))"
    by (auto simp: dijkstra_init_def pq_init_def getVertices_def)
  then have s1: "setup_loop (getVertices G) dijkstra_init = Inr s1"
    "fst ` set (distances s1) = set (Vertices G)"
    "fst ` set (predecessors s1) = set (Vertices G)"
    "fst ` set (content (unvisitedQ s1)) = set (Vertices G)"
    by (simp_all add: keys_of_def)
  from assms(2) s1(2) have "startV \<in> fst ` set (distances s1)" by (simp add: getVertices_def)
  from map_at_key[OF this] obtain x where x: "map_at (distances s1) startV = Inr x" ..
  define s2 where "s2 = s1\<lparr>distances := map_assign startV 0 (distances s1)\<rparr>"
  have ka: "fst ` set (map_assign k y m) = fst ` set m" for k :: int and y :: real and m
    by (induction m) (auto simp: map_assign_def)
  have d2: "fst ` set (distances s2) = set (Vertices G)"
    by (simp add: s2_def ka s1(2))
  with assms(2) have "startV \<in> fst ` set (distances s2)" by (simp add: getVertices_def)
  from map_at_key[OF this] obtain d0 where d0: "map_at (distances s2) startV = Inr d0" ..
  define s3 where "s3 = s2\<lparr>unvisitedQ := pq_push (startV, d0) (unvisitedQ s2)\<rparr>"
  have k3: "keys_ok G s3"
    using d2 s1(3,4) assms(2)
    by (simp add: keys_ok_def s3_def s2_def pq_push_def getVertices_def)
  have ne: "\<not> pq_empty (unvisitedQ s3)"
    by (simp add: s3_def pq_empty_def pq_push_def)
  from main_loop_keys_ok[OF assms(1) k3, of None tie endV] ne
  obtain s' v where m: "main_loop tie G endV s3 None = Inr (s', Some v)" "v \<in> set (Vertices G)"
    by auto
  from m(2) assms(3) have "v \<noteq> endV" by (auto simp: getVertices_def)
  have "Dijkstra tie G startV endV path =
      (case main_loop tie G endV s3 None of
         Inl e \<Rightarrow> Some (Inl e)
       | Inr (s3, cur) \<Rightarrow>
           (case cur of
              None \<Rightarrow> Some (Inl Uninitialized)
            | Some currentV \<Rightarrow>
                if currentV \<noteq> endV then Some (Inr (- 1, path))
                else
                  (case map_at (predecessors s3) endV of
                     Inl e \<Rightarrow> Some (Inl e)
                   | Inr backTrace \<Rightarrow>
                       (case backTrace_loop (predecessors s3) backTrace (path @ [endV]) of
                          None \<Rightarrow> None
                        | Some (Inl e) \<Rightarrow> Some (Inl e)
                        | Some (Inr path') \<Rightarrow>
                            (case map_at (distances s3) endV of
                               Inl e \<Rightarrow> Some (Inl e)
                             | Inr d \<Rightarrow> Some (Inr (d, path')))))))"
    unfolding Dijkstra_def s3_def s2_def using s1(1) x d0[unfolded s2_def]
    by (simp add: Let_def)
  with m(1) \<open>v \<noteq> endV\<close> show ?thesis by simp
qed

subsection \<open>The invariant of the main loop\<close>

lemma dinv_skip:
  assumes "dinv G startV rank D P Q S" and "Q' \<subseteq> Q" and "Q - {e} \<subseteq> Q'" and "fst e \<in> S"
  shows "dinv G startV rank D P Q' S"
proof -
  from assms(1) have k: "inv_keys (set (Vertices G)) D P Q S" and d: "inv_done D Q S"
    and q: "inv_queue (set (Vertices G)) D Q S" by (simp_all add: dinv_def)
  have k': "inv_keys (set (Vertices G)) D P Q' S"
    using k assms(2) unfolding inv_keys_def by blast
  have d': "inv_done D Q' S"
    using d assms(2) unfolding inv_done_def by blast
  have q1: "\<forall>e\<in>Q'. \<forall>d. D (fst e) = Some d \<longrightarrow> d \<le> snd e"
    using q assms(2) unfolding inv_queue_def by blast
  have q2: "(v, d) \<in> Q'" if "v \<in> set (Vertices G)" "v \<notin> S" "D v = Some d" for v d
  proof -
    from q that have "(v, d) \<in> Q" unfolding inv_queue_def by blast
    moreover from that(2) assms(4) have "(v, d) \<noteq> e" by auto
    ultimately show ?thesis using assms(3) by blast
  qed
  from q1 q2 have "inv_queue (set (Vertices G)) D Q' S" unfolding inv_queue_def by blast
  with k' d' assms(1) show ?thesis by (simp add: dinv_def)
qed

lemma dinv_visit:
  assumes inv: "dinv G startV rank D P Q S"
    and sub: "Q' \<subseteq> Q" "Q - {e} \<subseteq> Q'"
    and e: "e \<in> Q" "\<forall>e'\<in>Q. snd e \<le> snd e'"
    and c: "fst e = c" "c \<notin> S" "D c = Some dc" "dc \<noteq> INF_dbl"
  shows "dinv G startV (rank(c := card S)) D P Q' (insert c S) \<and> below D (insert c S) dc"
proof -
  let ?VS = "set (Vertices G)"
  from inv have k: "inv_keys ?VS D P Q S" and r: "inv_rank rank S"
    and p: "inv_pred G rank D P S" and d: "inv_done D Q S" and q: "inv_queue ?VS D Q S"
    and s: "inv_start startV D P" by (simp_all add: dinv_def)
  from k e(1) c(1) have cV: "c \<in> ?VS" unfolding inv_keys_def by auto
  from k have fin: "finite S" unfolding inv_keys_def by (blast intro: finite_subset)
  have card: "card (insert c S) = Suc (card S)" using fin c(2) by simp
  from q cV c(2,3) have cq: "(c, dc) \<in> Q" unfolding inv_queue_def by blast
  from q e(1) c(1,3) have dck: "dc \<le> snd e" unfolding inv_queue_def by blast
  have k': "inv_keys ?VS D P Q' (insert c S)"
    using k sub(1) cV unfolding inv_keys_def by blast
  have r': "inv_rank (rank(c := card S)) (insert c S)"
    using r card unfolding inv_rank_def by (auto simp: less_Suc_eq)
  have p': "inv_pred G (rank(c := card S)) D P (insert c S)"
    unfolding inv_pred_def
  proof (intro allI impI)
    fix v p assume vp: "P v = Some p" "p \<noteq> - 1"
    with p have pS: "p \<in> S" and rk: "v \<in> S \<longrightarrow> rank p < rank v"
      and ex: "\<exists>w dp dv. getWeight G p v = Some w \<and> D p = Some dp \<and> D v = Some dv \<and> dv = dp + w"
      unfolding inv_pred_def by blast+
    from pS c(2) have pc: "p \<noteq> c" by auto
    have "v \<in> insert c S \<longrightarrow> (rank(c := card S)) p < (rank(c := card S)) v"
    proof
      assume "v \<in> insert c S"
      then show "(rank(c := card S)) p < (rank(c := card S)) v"
      proof
        assume "v = c"
        with pc pS r show ?thesis by (simp add: inv_rank_def)
      next
        assume "v \<in> S"
        with rk c(2) pc show ?thesis by auto
      qed
    qed
    with pS ex show "p \<in> insert c S \<and> (v \<in> insert c S \<longrightarrow> (rank(c := card S)) p < (rank(c := card S)) v) \<and>
        (\<exists>w dp dv. getWeight G p v = Some w \<and> D p = Some dp \<and> D v = Some dv \<and> dv = dp + w)"
      by blast
  qed
  have d': "inv_done D Q' (insert c S)"
    unfolding inv_done_def
  proof (intro ballI allI impI)
    fix x dx assume x: "x \<in> insert c S" "D x = Some dx"
    show "dx \<noteq> INF_dbl \<and> (\<forall>e\<in>Q'. dx \<le> snd e)"
    proof (cases "x = c")
      case True
      with x c(3) have "dx = dc" by simp
      moreover have "\<forall>e'\<in>Q'. dc \<le> snd e'" using dck e(2) sub(1) by force
      ultimately show ?thesis using c(4) by simp
    next
      case False
      with x have "x \<in> S" by simp
      with d x(2) sub(1) show ?thesis unfolding inv_done_def by blast
    qed
  qed
  have q1: "\<forall>e\<in>Q'. \<forall>d. D (fst e) = Some d \<longrightarrow> d \<le> snd e"
    using q sub(1) unfolding inv_queue_def by blast
  have q2: "(v, dv) \<in> Q'" if "v \<in> ?VS" "v \<notin> insert c S" "D v = Some dv" for v dv
  proof -
    from q that have "(v, dv) \<in> Q" unfolding inv_queue_def by blast
    moreover from that(2) c(1) have "(v, dv) \<noteq> e" by auto
    ultimately show ?thesis using sub(2) by blast
  qed
  from q1 q2 have q': "inv_queue ?VS D Q' (insert c S)" unfolding inv_queue_def by blast
  have b: "below D (insert c S) dc"
    unfolding below_def
  proof (intro ballI allI impI)
    fix x dx assume x: "x \<in> insert c S" "D x = Some dx"
    show "dx \<le> dc"
    proof (cases "x = c")
      case True with x c(3) show ?thesis by simp
    next
      case False
      with x have "x \<in> S" by simp
      with d x(2) cq have "dx \<le> snd (c, dc)" unfolding inv_done_def by blast
      then show ?thesis by simp
    qed
  qed
  from k' r' p' d' q' s b show ?thesis by (simp add: dinv_def)
qed

lemma dinv_relax:
  assumes inv: "dinv G startV rank D P Q S"
    and b: "below D S dc"
    and c: "c \<in> S" "D c = Some dc"
    and w: "getWeight G c a = Some w" "0 \<le> w"
    and a: "D a = Some da" "dc + w < da"
  shows "dinv G startV rank (D(a \<mapsto> dc + w)) (P(a \<mapsto> c)) (insert (a, dc + w) Q) S \<and>
         below (D(a \<mapsto> dc + w)) S dc \<and> (D(a \<mapsto> dc + w)) c = Some dc"
proof -
  let ?VS = "set (Vertices G)"
  let ?D = "D(a \<mapsto> dc + w)" and ?P = "P(a \<mapsto> c)" and ?Q = "insert (a, dc + w) Q"
  from inv have k: "inv_keys ?VS D P Q S" and r: "inv_rank rank S"
    and p: "inv_pred G rank D P S" and d: "inv_done D Q S" and q: "inv_queue ?VS D Q S"
    and s: "inv_start startV D P" by (simp_all add: dinv_def)
  have aS: "a \<notin> S"
  proof
    assume "a \<in> S"
    with b a(1) have "da \<le> dc" unfolding below_def by blast
    with a(2) w(2) show False by simp
  qed
  with c(1) have ac: "a \<noteq> c" by auto
  from a(1) k have aV: "a \<in> ?VS" unfolding inv_keys_def by blast
  from s c(2) have dc0: "0 \<le> dc" unfolding inv_start_def by blast
  have k': "inv_keys ?VS ?D ?P ?Q S"
  proof -
    have "dom ?D = ?VS" "dom ?P = ?VS" using k aV unfolding inv_keys_def by auto
    moreover have "fst ` ?Q \<subseteq> ?VS" using k aV unfolding inv_keys_def by auto
    ultimately show ?thesis using k unfolding inv_keys_def by blast
  qed
  have p': "inv_pred G rank ?D ?P S"
    unfolding inv_pred_def
  proof (intro allI impI)
    fix v p' assume vp: "?P v = Some p'" "p' \<noteq> - 1"
    show "p' \<in> S \<and> (v \<in> S \<longrightarrow> rank p' < rank v) \<and>
        (\<exists>w dp dv. getWeight G p' v = Some w \<and> ?D p' = Some dp \<and> ?D v = Some dv \<and> dv = dp + w)"
    proof (cases "v = a")
      case True
      with vp have "p' = c" by simp
      with True c(1,2) aS ac w(1) show ?thesis by auto
    next
      case False
      with vp have vp': "P v = Some p'" by simp
      with p vp(2) have pS: "p' \<in> S" and rk: "v \<in> S \<longrightarrow> rank p' < rank v"
        and ex: "\<exists>w dp dv. getWeight G p' v = Some w \<and> D p' = Some dp \<and> D v = Some dv \<and> dv = dp + w"
        unfolding inv_pred_def by blast+
      from pS aS have "p' \<noteq> a" by auto
      with False ex have "\<exists>w dp dv. getWeight G p' v = Some w \<and> ?D p' = Some dp \<and> ?D v = Some dv \<and> dv = dp + w"
        by simp
      with pS rk show ?thesis by blast
    qed
  qed
  have d': "inv_done ?D ?Q S"
    unfolding inv_done_def
  proof (intro ballI allI impI)
    fix x dx assume x: "x \<in> S" "?D x = Some dx"
    from x(1) aS have "x \<noteq> a" by auto
    with x(2) have dx: "D x = Some dx" by simp
    with d x(1) have "dx \<noteq> INF_dbl" "\<forall>e\<in>Q. dx \<le> snd e" unfolding inv_done_def by blast+
    moreover from b x(1) dx have "dx \<le> dc" unfolding below_def by blast
    with w(2) have "dx \<le> dc + w" by simp
    ultimately show "dx \<noteq> INF_dbl \<and> (\<forall>e\<in>?Q. dx \<le> snd e)" by simp
  qed
  have q1: "\<forall>e\<in>?Q. \<forall>d. ?D (fst e) = Some d \<longrightarrow> d \<le> snd e"
  proof (intro ballI allI impI)
    fix e d assume e: "e \<in> ?Q" "?D (fst e) = Some d"
    show "d \<le> snd e"
    proof (cases "fst e = a")
      case True
      with e(2) have dd: "d = dc + w" by simp
      from e(1) show ?thesis
      proof
        assume "e = (a, dc + w)" with dd show ?thesis by simp
      next
        assume "e \<in> Q"
        with q True a(1) have "da \<le> snd e" unfolding inv_queue_def by blast
        with a(2) dd show ?thesis by simp
      qed
    next
      case False
      with e have "e \<in> Q" "D (fst e) = Some d" by auto
      with q show ?thesis unfolding inv_queue_def by blast
    qed
  qed
  have q2: "(v, dv) \<in> ?Q" if "v \<in> ?VS" "v \<notin> S" "?D v = Some dv" for v dv
  proof (cases "v = a")
    case True with that(3) show ?thesis by simp
  next
    case False
    with that(3) have "D v = Some dv" by simp
    with q that(1,2) have "(v, dv) \<in> Q" unfolding inv_queue_def by blast
    then show ?thesis by simp
  qed
  from q1 q2 have q': "inv_queue ?VS ?D ?Q S" unfolding inv_queue_def by blast
  have s': "inv_start startV ?D ?P"
  proof -
    have "a \<noteq> startV"
    proof
      assume "a = startV"
      with s a(1) have "da = 0" unfolding inv_start_def by simp
      with a(2) dc0 w(2) show False by simp
    qed
    moreover have "\<forall>v d. ?D v = Some d \<longrightarrow> 0 \<le> d"
      using s dc0 w(2) unfolding inv_start_def by auto
    ultimately show ?thesis using s unfolding inv_start_def by simp
  qed
  have b': "below ?D S dc" using b aS unfolding below_def by auto
  from k' r p' d' q' s' b' ac c(2) show ?thesis by (simp add: dinv_def)
qed

lemma map_of_map_erase: "map_of (map_erase k m) = (map_of m)(k := None)"
  by (induction m) (auto simp: map_erase_def)

lemma map_of_emplace_erase:
  "map_of (map_emplace k x (map_erase k m)) = (map_of m)(k \<mapsto> x)"
proof -
  have n: "map_of (map_erase k m) k = None" by (simp add: map_of_map_erase)
  then have "map_emplace k x (map_erase k m) = map_erase k m @ [(k, x)]"
    by (simp add: map_emplace_def)
  then show ?thesis
    by (auto simp: map_of_map_erase map_add_def fun_eq_iff split: option.splits)
qed

lemma map_at_Inr_iff: "map_at m k = Inr x \<longleftrightarrow> map_of m k = Some x"
  by (auto simp: map_at_def split: option.splits)

lemma relax_loop_inv:
  assumes G: "graph_inv G" "nonneg_weights G"
  shows "set vs \<subseteq> neighbors G c \<Longrightarrow> sinv G startV rank s \<Longrightarrow> c \<in> visitedVertices s \<Longrightarrow>
         map_of (distances s) c = Some dc \<Longrightarrow>
         below (map_of (distances s)) (visitedVertices s) dc \<Longrightarrow>
         \<exists>s'. relax_loop G c vs s = Inr s' \<and> sinv G startV rank s' \<and>
              visitedVertices s' = visitedVertices s"
proof (induction vs arbitrary: s)
  case Nil
  then show ?case by simp
next
  case (Cons a vs)
  from Cons.prems have an: "a \<in> neighbors G c" and vs: "set vs \<subseteq> neighbors G c" by auto
  from getWeight_neighbor[OF G(1) an] obtain w where w: "getWeight G c a = Some w" ..
  with G(2) have w0: "0 \<le> w" unfolding nonneg_weights_def by blast
  from neighbors_in_Vertices[OF G(1) an] have aV: "a \<in> set (Vertices G)" .
  from Cons.prems(2) have "dom (map_of (distances s)) = set (Vertices G)"
    by (simp add: dinv_def inv_keys_def)
  with aV obtain da where da: "map_of (distances s) a = Some da" by blast
  define s1 where "s1 = s\<lparr>edgeWeight := Some w\<rparr>"
  have dc1: "map_at (distances s1) c = Inr dc" and da1: "map_at (distances s1) a = Inr da"
    using Cons.prems(4) da by (simp_all add: s1_def map_at_Inr_iff)
  have step: "relax_loop G c (a # vs) s =
      (if dc + w < da
       then relax_loop G c vs
              (s1\<lparr>distances := map_emplace a (dc + w) (map_erase a (distances s1)),
                   predecessors := map_emplace a c (map_erase a (predecessors s1)),
                   unvisitedQ := pq_push (a, dc + w) (unvisitedQ s1)\<rparr>)
       else relax_loop G c vs s1)"
    using w dc1 da1 by (simp add: Let_def s1_def)
  show ?case
  proof (cases "dc + w < da")
    case False
    have "sinv G startV rank s1" using Cons.prems(2) by (simp add: s1_def)
    moreover have "c \<in> visitedVertices s1" "map_of (distances s1) c = Some dc"
      "below (map_of (distances s1)) (visitedVertices s1) dc"
      using Cons.prems(3,4,5) by (simp_all add: s1_def)
    ultimately obtain s' where "relax_loop G c vs s1 = Inr s'" "sinv G startV rank s'"
      "visitedVertices s' = visitedVertices s1"
      using Cons.IH[OF vs] by blast
    with step False show ?thesis by (simp add: s1_def)
  next
    case True
    define s2 where "s2 = s1\<lparr>distances := map_emplace a (dc + w) (map_erase a (distances s1)),
                   predecessors := map_emplace a c (map_erase a (predecessors s1)),
                   unvisitedQ := pq_push (a, dc + w) (unvisitedQ s1)\<rparr>"
    from dinv_relax[OF Cons.prems(2) Cons.prems(5) Cons.prems(3) Cons.prems(4) w w0 da True]
    have "sinv G startV rank s2" "below (map_of (distances s2)) (visitedVertices s2) dc"
      "map_of (distances s2) c = Some dc"
      by (simp_all add: s2_def s1_def map_of_emplace_erase pq_push_def)
    moreover have "c \<in> visitedVertices s2" using Cons.prems(3) by (simp add: s2_def s1_def)
    ultimately obtain s' where "relax_loop G c vs s2 = Inr s'" "sinv G startV rank s'"
      "visitedVertices s' = visitedVertices s2"
      using Cons.IH[OF vs] by blast
    with step True show ?thesis by (simp add: s2_def s1_def)
  qed
qed

lemma sinv_distance:
  assumes "sinv G startV rank s" and "v \<in> set (Vertices G)"
  shows "\<exists>d. map_of (distances s) v = Some d"
  using assms unfolding dinv_def inv_keys_def by blast

lemma sinv_queue_vertex:
  assumes "sinv G startV rank s" and "e \<in> set (content (unvisitedQ s))"
  shows "fst e \<in> set (Vertices G)"
  using assms unfolding dinv_def inv_keys_def by blast

lemma sinv_final: "sinv G startV rank s \<Longrightarrow> final_inv G startV rank s"
  unfolding dinv_def final_inv_def inv_keys_def inv_done_def by blast

lemma final_inv_cong:
  assumes "final_inv G startV rank s" and "distances s' = distances s"
    and "predecessors s' = predecessors s" and "visitedVertices s' = visitedVertices s"
  shows "final_inv G startV rank s'"
  using assms by (simp add: final_inv_def)

lemma main_loop_inv:
  "graph_inv G \<Longrightarrow> nonneg_weights G \<Longrightarrow> sinv G startV rank s \<Longrightarrow>
   endV \<notin> visitedVertices s \<Longrightarrow> (cur = None \<longrightarrow> \<not> pq_empty (unvisitedQ s)) \<Longrightarrow>
   (\<forall>v. cur = Some v \<longrightarrow> v \<noteq> endV) \<Longrightarrow>
   \<exists>s' v rank'. main_loop tie G endV s cur = Inr (s', Some v) \<and> final_inv G startV rank' s' \<and>
     (v = endV \<longrightarrow> endV \<in> visitedVertices s' \<or> map_of (distances s') endV = Some INF_dbl)"
proof (induction tie G endV s cur arbitrary: rank rule: main_loop.induct)
  case (1 tie G endV s cur)
  note G = "1.prems"(1,2) and inv = "1.prems"(3) and nend = "1.prems"(4)
  show ?case
  proof (cases "pq_empty (unvisitedQ s)")
    case True
    with "1.prems"(5) obtain v0 where v0: "cur = Some v0" by (cases cur) auto
    with "1.prems"(6) have "v0 \<noteq> endV" by simp
    with True v0 sinv_final[OF inv] show ?thesis by (auto simp: main_loop_empty)
  next
    case False
    define e where "e = pq_top tie (unvisitedQ s)"
    define c where "c = fst (pq_top tie (unvisitedQ s))"
    define s1 where "s1 = s\<lparr>unvisitedQ := pq_pop tie (unvisitedQ s)\<rparr>"
    from False have ne: "content (unvisitedQ s) \<noteq> []" by (simp add: pq_empty_def)
    have eQ: "e \<in> set (content (unvisitedQ s))"
      unfolding e_def using ne by (rule pq_top_in_content)
    have emin: "\<forall>e'\<in>set (content (unvisitedQ s)). snd e \<le> snd e'"
      unfolding e_def using pq_top_minimal[OF ne] by blast
    have ec: "fst e = c" by (simp add: e_def c_def)
    from sinv_queue_vertex[OF inv eQ] ec have cV: "c \<in> set (Vertices G)" by simp
    have q1: "set (content (unvisitedQ s1)) \<subseteq> set (content (unvisitedQ s))"
      by (simp add: s1_def pq_pop_def set_remove1_subset)
    have q2: "set (content (unvisitedQ s)) - {e} \<subseteq> set (content (unvisitedQ s1))"
    proof
      fix x assume "x \<in> set (content (unvisitedQ s)) - {e}"
      then have "x \<in> set (content (unvisitedQ s))" "x \<noteq> e" by auto
      then have "x \<in> set (remove1 e (content (unvisitedQ s)))" by (simp add: in_set_remove1)
      then show "x \<in> set (content (unvisitedQ s1))" by (simp add: s1_def pq_pop_def e_def)
    qed
    have same: "distances s1 = distances s" "predecessors s1 = predecessors s"
      "visitedVertices s1 = visitedVertices s" by (simp_all add: s1_def)
    from sinv_distance[OF inv cV] obtain d where d: "map_of (distances s) c = Some d" ..
    then have d1: "map_at (distances s1) c = Inr d" by (simp add: same map_at_Inr_iff)
    note step = main_loop_step[OF False c_def s1_def d1, of G endV cur]
    show ?thesis
    proof (cases "d = INF_dbl")
      case True
      have "final_inv G startV rank s1"
        using sinv_final[OF inv] same by (rule final_inv_cong)
      with step True d same show ?thesis by auto
    next
      case nINF: False
      show ?thesis
      proof (cases "c \<in> visitedVertices s1")
        case True
        with nend same have cne: "c \<noteq> endV" by auto
        from dinv_skip[OF inv q1 q2] True ec have "sinv G startV rank s1" by (simp add: same)
        from "1.IH"(1)[OF False c_def s1_def d1 nINF True G this] nend cne same
        obtain s' v rank' where "main_loop tie G endV s1 (Some c) = Inr (s', Some v)"
          "final_inv G startV rank' s'"
          "v = endV \<longrightarrow> endV \<in> visitedVertices s' \<or> map_of (distances s') endV = Some INF_dbl"
          by auto
        with step nINF True show ?thesis by auto
      next
        case nv: False
        define s2 where "s2 = s1\<lparr>visitedVertices := insert c (visitedVertices s1)\<rparr>"
        define rank2 where "rank2 = rank(c := card (visitedVertices s))"
        from nv same have nv': "c \<notin> visitedVertices s" by simp
        from dinv_visit[OF inv q1 q2 eQ emin ec nv' d nINF]
        have i2: "sinv G startV rank2 s2"
          and b2: "below (map_of (distances s2)) (visitedVertices s2) d"
          by (simp_all add: s2_def rank2_def same)
        have c2: "c \<in> visitedVertices s2" "map_of (distances s2) c = Some d"
          using d by (simp_all add: s2_def same)
        have "set (sorted_list_of_set (neighbors G c)) \<subseteq> neighbors G c"
          by (simp add: neighbors_def split: option.splits)
        from relax_loop_inv[OF G this i2 c2 b2]
        obtain s3 where s3: "relax_loop G c (sorted_list_of_set (neighbors G c)) s2 = Inr s3"
          "sinv G startV rank2 s3" "visitedVertices s3 = visitedVertices s2" by blast
        note step' = step[folded s2_def]
        show ?thesis
        proof (cases "c = endV")
          case True
          have "endV \<in> visitedVertices s3" using s3(3) True by (simp add: s2_def)
          with step' nINF nv s3(1) sinv_final[OF s3(2)] True show ?thesis by auto
        next
          case cne: False
          have "endV \<notin> visitedVertices s3" using s3(3) nend cne by (simp add: s2_def same)
          from "1.IH"(2)[OF False c_def s1_def d1 nINF nv s2_def s3(1) cne G s3(2) this] cne
          obtain s' v rank' where "main_loop tie G endV s3 (Some c) = Inr (s', Some v)"
            "final_inv G startV rank' s'"
            "v = endV \<longrightarrow> endV \<in> visitedVertices s' \<or> map_of (distances s') endV = Some INF_dbl"
            by auto
          with step' nINF nv s3 cne show ?thesis by auto
        qed
      qed
    qed
  qed
qed

subsection \<open>Every call returns when no weight is negative\<close>

lemma map_of_map_emplace:
  "map_of (map_emplace k x m) = (case map_of m k of None \<Rightarrow> (map_of m)(k \<mapsto> x) | Some y \<Rightarrow> map_of m)"
  by (auto simp: map_emplace_def map_add_def fun_eq_iff split: option.splits)

lemma map_of_map_assign:
  "map_of (map_assign k x m) = (\<lambda>u. if u = k \<and> map_of m k \<noteq> None then Some x else map_of m u)"
  by (induction m) (auto simp: map_assign_def fun_eq_iff)

lemma fresh_init: "fresh dijkstra_init {}"
  by (simp add: fresh_def dijkstra_init_def pq_init_def)

lemma setup_loop_fresh:
  "fresh s X \<Longrightarrow> \<exists>s'. setup_loop vs s = Inr s' \<and> fresh s' (X \<union> set vs)"
proof (induction vs arbitrary: s X)
  case Nil
  then show ?case by simp
next
  case (Cons v vs)
  define t where "t = s\<lparr>distances := map_emplace v INF_dbl (distances s),
               predecessors := map_emplace v (- 1) (predecessors s),
               unvisitedQ := pq_push (v, INF_dbl) (unvisitedQ s)\<rparr>"
  from Cons.prems have d: "map_of (map_emplace v INF_dbl (distances s)) =
      (\<lambda>u. if u \<in> insert v X then Some INF_dbl else None)"
    by (auto simp: fresh_def map_of_map_emplace fun_eq_iff)
  from Cons.prems have p: "map_of (map_emplace v (- 1) (predecessors s)) =
      (\<lambda>u. if u \<in> insert v X then Some (- 1) else None)"
    by (auto simp: fresh_def map_of_map_emplace fun_eq_iff)
  from d have at: "map_at (map_emplace v INF_dbl (distances s)) v = Inr INF_dbl"
    by (simp add: map_at_Inr_iff)
  have "fresh t (insert v X)"
    using Cons.prems d p by (simp add: fresh_def t_def pq_push_def)
  from Cons.IH[OF this] obtain s' where "setup_loop vs t = Inr s'" "fresh s' (insert v X \<union> set vs)"
    by blast
  moreover have "setup_loop (v # vs) s = setup_loop vs t"
    using at by (simp add: Let_def t_def)
  ultimately show ?case by auto
qed

lemma initial_sinv:
  assumes "fresh s1 (set (Vertices G))" and "startV \<in> set (Vertices G)"
  shows "sinv G startV rank
           (s1\<lparr>distances := map_assign startV 0 (distances s1),
               unvisitedQ := pq_push (startV, 0) (unvisitedQ s1)\<rparr>)"
proof -
  let ?VS = "set (Vertices G)"
  let ?D = "\<lambda>v. if v = startV then Some (0::real) else if v \<in> ?VS then Some INF_dbl else None"
  let ?P = "\<lambda>v. if v \<in> ?VS then Some (- 1 :: int) else None"
  let ?Q = "insert (startV, 0) ((\<lambda>v. (v, INF_dbl)) ` ?VS)"
  have D: "map_of (map_assign startV 0 (distances s1)) = ?D"
    using assms by (auto simp: fresh_def map_of_map_assign fun_eq_iff)
  have P: "map_of (predecessors s1) = ?P" using assms(1) by (simp add: fresh_def)
  have Q: "set (content (pq_push (startV, 0) (unvisitedQ s1))) = ?Q"
    using assms(1) by (simp add: fresh_def pq_push_def)
  have S: "visitedVertices s1 = {}" using assms(1) by (simp add: fresh_def)
  have k: "inv_keys ?VS ?D ?P ?Q {}"
    using assms(2) unfolding inv_keys_def by (auto split: if_splits)
  have r: "inv_rank rank {}" by (simp add: inv_rank_def)
  have p: "inv_pred G rank ?D ?P {}" unfolding inv_pred_def by (auto split: if_splits)
  have d: "inv_done ?D ?Q {}" by (simp add: inv_done_def)
  have q: "inv_queue ?VS ?D ?Q {}" unfolding inv_queue_def by (auto split: if_splits)
  have s: "inv_start startV ?D ?P" using assms(2) unfolding inv_start_def by (auto split: if_splits)
  from k r p d q s show ?thesis by (simp add: dinv_def D P Q S)
qed

lemma backTrace_loop_returns:
  assumes "final_inv G startV rank s"
  shows "bt = - 1 \<or> bt \<in> visitedVertices s \<Longrightarrow>
         \<exists>path'. backTrace_loop (predecessors s) bt path = Some (Inr path')"
proof (induction "rank bt" arbitrary: bt path rule: less_induct)
  case less
  show ?case
  proof (cases "bt = - 1")
    case True
    then show ?thesis by (subst backTrace_loop.simps) simp
  next
    case False
    with less.prems have bS: "bt \<in> visitedVertices s" by simp
    from assms have k: "inv_keys (set (Vertices G)) (map_of (distances s)) (map_of (predecessors s))
        {} (visitedVertices s)"
      and ip: "inv_pred G rank (map_of (distances s)) (map_of (predecessors s)) (visitedVertices s)"
      by (simp_all add: final_inv_def)
    from k bS obtain p where p: "map_of (predecessors s) bt = Some p"
      unfolding inv_keys_def by blast
    then have at: "map_at (predecessors s) bt = Inr p" by (simp add: map_at_Inr_iff)
    have "\<exists>path'. backTrace_loop (predecessors s) p (path @ [bt]) = Some (Inr path')"
    proof (cases "p = - 1")
      case True
      then show ?thesis by (subst backTrace_loop.simps) simp
    next
      case pn: False
      with ip p bS have "p \<in> visitedVertices s" "rank p < rank bt"
        unfolding inv_pred_def by blast+
      then show ?thesis using less.hyps[of p] by blast
    qed
    with False at show ?thesis by (subst backTrace_loop.simps) simp
  qed
qed

lemma Dijkstra_unfold:
  assumes "setup_loop (getVertices G) dijkstra_init = Inr s1"
    and "map_of (distances s1) startV \<noteq> None"
  shows "Dijkstra tie G startV endV path =
      (case main_loop tie G endV
              (s1\<lparr>distances := map_assign startV 0 (distances s1),
                  unvisitedQ := pq_push (startV, 0) (unvisitedQ s1)\<rparr>) None of
         Inl e \<Rightarrow> Some (Inl e)
       | Inr (s3, cur) \<Rightarrow>
           (case cur of
              None \<Rightarrow> Some (Inl Uninitialized)
            | Some currentV \<Rightarrow>
                if currentV \<noteq> endV then Some (Inr (- 1, path))
                else
                  (case map_at (predecessors s3) endV of
                     Inl e \<Rightarrow> Some (Inl e)
                   | Inr backTrace \<Rightarrow>
                       (case backTrace_loop (predecessors s3) backTrace (path @ [endV]) of
                          None \<Rightarrow> None
                        | Some (Inl e) \<Rightarrow> Some (Inl e)
                        | Some (Inr path') \<Rightarrow>
                            (case map_at (distances s3) endV of
                               Inl e \<Rightarrow> Some (Inl e)
                             | Inr d \<Rightarrow> Some (Inr (d, path')))))))"
proof -
  from assms(2) obtain x where x: "map_at (distances s1) startV = Inr x"
    by (auto simp: map_at_def)
  have "map_at (map_assign startV 0 (distances s1)) startV = Inr 0"
    using assms(2) by (simp add: map_at_Inr_iff map_of_map_assign)
  with assms(1) x show ?thesis
    by (simp add: Dijkstra_def Let_def)
qed

lemma Dijkstra_missing_start:
  assumes "startV \<notin> set (getVertices G)"
  shows "Dijkstra tie G startV endV path = Some (Inl OutOfRange)"
proof -
  from setup_loop_fresh[OF fresh_init, of "getVertices G"]
  obtain s1 where s1: "setup_loop (getVertices G) dijkstra_init = Inr s1"
    "fresh s1 (set (getVertices G))" by auto
  from s1(2) assms have "map_of (distances s1) startV = None" by (simp add: fresh_def)
  then have "map_at (distances s1) startV = Inl OutOfRange" by (simp add: map_at_def)
  with s1(1) show ?thesis by (simp add: Dijkstra_def)
qed

lemma Dijkstra_returns:
  assumes "graph_inv G" and "nonneg_weights G"
  shows "\<exists>r. Dijkstra tie G startV endV path = Some r"
proof (cases "startV \<in> set (getVertices G)")
  case False
  with Dijkstra_missing_start show ?thesis by blast
next
  case True
  then have sV: "startV \<in> set (Vertices G)" by (simp add: getVertices_def)
  from setup_loop_fresh[OF fresh_init, of "getVertices G"]
  obtain s1 where s1: "setup_loop (getVertices G) dijkstra_init = Inr s1"
    "fresh s1 (set (Vertices G))" by (auto simp: getVertices_def)
  from s1(2) sV have d: "map_of (distances s1) startV \<noteq> None" by (simp add: fresh_def)
  define s2 where "s2 = s1\<lparr>distances := map_assign startV 0 (distances s1),
                  unvisitedQ := pq_push (startV, 0) (unvisitedQ s1)\<rparr>"
  have i2: "sinv G startV (\<lambda>v. 0) s2" unfolding s2_def using s1(2) sV by (rule initial_sinv)
  have ne: "\<not> pq_empty (unvisitedQ s2)" by (simp add: s2_def pq_empty_def pq_push_def)
  have nv: "endV \<notin> visitedVertices s2" using s1(2) by (simp add: s2_def fresh_def)
  from main_loop_inv[OF assms i2 nv, of None tie] ne
  obtain s3 v rank' where m: "main_loop tie G endV s2 None = Inr (s3, Some v)"
    "final_inv G startV rank' s3"
    "v = endV \<longrightarrow> endV \<in> visitedVertices s3 \<or> map_of (distances s3) endV = Some INF_dbl"
    by auto
  note unf = Dijkstra_unfold[OF s1(1) d, of tie endV path, folded s2_def]
  show ?thesis
  proof (cases "v = endV")
    case False
    with unf m(1) show ?thesis by simp
  next
    case True
    from m(2) have k: "inv_keys (set (Vertices G)) (map_of (distances s3)) (map_of (predecessors s3))
        {} (visitedVertices s3)"
      and ip: "inv_pred G rank' (map_of (distances s3)) (map_of (predecessors s3)) (visitedVertices s3)"
      by (simp_all add: final_inv_def)
    from m(3) True k have eV: "endV \<in> set (Vertices G)" unfolding inv_keys_def by blast
    with k obtain p d where p: "map_of (predecessors s3) endV = Some p"
      and dd: "map_of (distances s3) endV = Some d" unfolding inv_keys_def by blast
    from ip p have "p = - 1 \<or> p \<in> visitedVertices s3" unfolding inv_pred_def by blast
    from backTrace_loop_returns[OF m(2) this, of "path @ [endV]"]
    obtain path' where "backTrace_loop (predecessors s3) p (path @ [endV]) = Some (Inr path')" ..
    with unf m(1) True p dd show ?thesis by (simp add: map_at_def)
  qed
qed

subsection \<open>Graphs built from non-negative weights\<close>

lemma findWeight_mem: "findWeight b es = Some w \<Longrightarrow> \<exists>e\<in>set es. toVert e = b \<and> toWeight e = w"
  by (induction es) (auto split: if_splits)

lemma nonneg_weights_addVertex:
  assumes "graph_inv g" and "nonneg_weights g"
  shows "nonneg_weights (snd (addVertex v g))"
  unfolding nonneg_weights_def
proof (intro allI impI)
  fix a b w assume gw: "getWeight (snd (addVertex v g)) a b = Some w"
  show "0 \<le> w"
  proof (cases "edgeMap g v")
    case (Some es)
    with gw assms(2) show ?thesis by (simp add: addVertex_def nonneg_weights_def)
  next
    case None
    from gw None obtain es where es: "edgeMap g a = Some es" "findWeight b es = Some w"
      by (auto simp: getWeight_def addVertex_def split: if_splits option.splits)
    from findWeight_mem[OF es(2)] have "b \<in> toVert ` set es" by force
    with assms(1) es(1) have "edgeMap g b \<noteq> None" unfolding graph_inv_def by blast
    with es have "getWeight g a b = Some w" by (simp add: getWeight_def)
    with assms(2) show ?thesis unfolding nonneg_weights_def by blast
  qed
qed

lemma findWeight_overwriteEdge_cases:
  "overwriteEdge b w es = Some es' \<Longrightarrow> findWeight t es' = Some x \<Longrightarrow>
     x = w \<or> findWeight t es = Some x"
  by (induction es arbitrary: es') (auto split: option.splits if_splits)

lemma findWeight_append_cases:
  "findWeight t (es @ [\<lparr>toVert = b, toWeight = w\<rparr>]) = Some x \<Longrightarrow>
     x = w \<or> findWeight t es = Some x"
  by (induction es) (auto split: if_splits)

lemma nonneg_weights_addEdge:
  assumes "nonneg_weights g" and "0 \<le> w"
  shows "nonneg_weights (snd (addEdge a b w g))"
  unfolding nonneg_weights_def
proof (intro allI impI)
  fix x y u assume gw: "getWeight (snd (addEdge a b w g)) x y = Some u"
  let ?g = "snd (addEdge a b w g)"
  from gw obtain es' where es': "edgeMap ?g x = Some es'" "findWeight y es' = Some u"
    "edgeMap ?g y \<noteq> None"
    by (auto simp: getWeight_def split: if_splits option.splits)
  from es'(3) have yg: "edgeMap g y \<noteq> None" using dom_addEdge[of a b w g] by blast
  from edgeMap_addEdge_cases[OF es'(1)]
  consider "edgeMap g x = Some es'"
    | es where "edgeMap g x = Some es" "overwriteEdge b w es = Some es'"
    | es where "edgeMap g x = Some es" "es' = es @ [\<lparr>toVert = b, toWeight = w\<rparr>]"
    by blast
  then have "u = w \<or> getWeight g x y = Some u"
  proof cases
    case 1
    with es'(2) yg show ?thesis by (auto simp: getWeight_def)
  next
    case 2
    from findWeight_overwriteEdge_cases[OF 2(2) es'(2)] 2(1) yg show ?thesis
      by (auto simp: getWeight_def)
  next
    case 3
    from findWeight_append_cases[of y es b w u] es'(2) 3 yg show ?thesis
      by (auto simp: getWeight_def)
  qed
  with assms show "0 \<le> u" unfolding nonneg_weights_def by blast
qed

lemma nonneg_weights_run_ops: "list_all nonneg_op ops \<Longrightarrow> nonneg_weights (run_ops ops)"
proof (induction ops rule: rev_induct)
  case Nil
  show ?case by (simp add: run_ops_def graph_init_def nonneg_weights_def getWeight_def)
next
  case (snoc x xs)
  then have IH: "nonneg_weights (run_ops xs)" by simp
  show ?case
  proof (cases x)
    case (AddVertex v)
    with IH nonneg_weights_addVertex[OF graph_inv_run_ops] show ?thesis
      by (simp add: run_ops_snoc)
  next
    case (AddEdge a b w)
    with snoc.prems have "0 \<le> w" by simp
    with IH AddEdge show ?thesis by (simp add: run_ops_snoc nonneg_weights_addEdge)
  qed
qed

subsection \<open>What a call returns when no weight is negative\<close>

text \<open>
  The distance of a vertex that is being visited is the weight of a lightest walk from the
  start: a walk that leaves the visited set does so over an edge whose head already has a
  distance, and no unvisited vertex is closer than the one popped.
\<close>

lemma path_weight_Cons2:
  "path_weight G (x # y # rest) = Some w \<longleftrightarrow>
     (\<exists>wxy r. getWeight G x y = Some wxy \<and> path_weight G (y # rest) = Some r \<and> w = wxy + r)"
  by (auto split: option.splits)

lemma path_weight_nonneg:
  assumes "nonneg_weights G"
  shows "path_weight G p = Some w \<Longrightarrow> 0 \<le> w"
proof (induction p arbitrary: w rule: induct_list012)
  case 1
  then show ?case by simp
next
  case (2 x)
  then show ?case by simp
next
  case (3 x y zs)
  from "3.prems" obtain wxy r where g: "getWeight G x y = Some wxy"
    and r: "path_weight G (y # zs) = Some r" and w: "w = wxy + r"
    unfolding path_weight_Cons2 by blast
  from assms g have "0 \<le> wxy" unfolding nonneg_weights_def by blast
  moreover from "3.IH"(2)[OF r] have "0 \<le> r" .
  ultimately show ?case using w by simp
qed

lemma walk_leaves_visited:
  assumes rel: "inv_relaxed G D S {}" and nn: "nonneg_weights G"
    and least: "\<forall>y dy. y \<notin> S \<longrightarrow> D y = Some dy \<longrightarrow> dc \<le> dy"
  shows "path_weight G p = Some w \<Longrightarrow> p \<noteq> [] \<Longrightarrow> hd p \<in> S \<Longrightarrow> D (hd p) = Some dh \<Longrightarrow>
         dh \<le> a \<Longrightarrow> last p \<notin> S \<Longrightarrow> dc \<le> a + w"
proof (induction p arbitrary: w a dh rule: induct_list012)
  case 1
  then show ?case by simp
next
  case (2 x)
  then show ?case by simp
next
  case (3 x y zs)
  from "3.prems"(1) obtain wxy r where g: "getWeight G x y = Some wxy"
    and r: "path_weight G (y # zs) = Some r" and w: "w = wxy + r"
    unfolding path_weight_Cons2 by blast
  from "3.prems"(3) have xS: "x \<in> S" by simp
  from "3.prems"(4) have dx: "D x = Some dh" by simp
  from rel xS g dx obtain dy where dy: "D y = Some dy" "dy \<le> dh + wxy"
    unfolding inv_relaxed_def by fastforce
  with "3.prems"(5) have dya: "dy \<le> a + wxy" by simp
  from path_weight_nonneg[OF nn r] have r0: "0 \<le> r" .
  show ?case
  proof (cases "y \<in> S")
    case True
    from "3.prems"(6) have l: "last (y # zs) \<notin> S" by simp
    have "dc \<le> (a + wxy) + r"
      by (rule "3.IH"(2)[OF r _ _ _ dya l]) (use True dy(1) in simp_all)
    with w show ?thesis by simp
  next
    case False
    with least dy(1) have "dc \<le> dy" by blast
    with dya r0 w show ?thesis by simp
  qed
qed

lemma getWeight_neighbors: "getWeight G x y = Some w \<Longrightarrow> y \<in> neighbors G x"
proof -
  assume "getWeight G x y = Some w"
  then obtain es where "edgeMap G x = Some es" "findWeight y es = Some w"
    by (auto simp: getWeight_def split: if_splits option.splits)
  with findWeight_mem[of y es w] show ?thesis by (force simp: neighbors_def)
qed

lemma oinv_visit:
  assumes inv: "dinv G startV rank D P Q S" and o: "oinv G startV D P S {}"
    and nn: "nonneg_weights G"
    and e: "e \<in> Q" "\<forall>e'\<in>Q. snd e \<le> snd e'"
    and c: "fst e = c" "c \<notin> S" "D c = Some dc" "dc \<noteq> INF_dbl"
  shows "oinv G startV D P (insert c S) ({c} \<times> neighbors G c)"
proof -
  let ?VS = "set (Vertices G)"
  from inv have q: "inv_queue ?VS D Q S" and s: "inv_start startV D P"
    and k: "inv_keys ?VS D P Q S" by (simp_all add: dinv_def)
  from o have root: "inv_root ?VS startV D P" and first: "inv_first startV D S"
    and lower: "inv_lower G startV D S" and rel: "inv_relaxed G D S {}"
    by (simp_all add: oinv_def)
  from q e(1) c(1,3) have dck: "dc \<le> snd e" unfolding inv_queue_def by blast
  have least: "\<forall>y dy. y \<notin> S \<longrightarrow> D y = Some dy \<longrightarrow> dc \<le> dy"
  proof (intro allI impI)
    fix y dy assume y: "y \<notin> S" "D y = Some dy"
    with k have "y \<in> ?VS" unfolding inv_keys_def by blast
    with q y have "(y, dy) \<in> Q" unfolding inv_queue_def by blast
    with e(2) have "snd e \<le> dy" by force
    with dck show "dc \<le> dy" by simp
  qed
  have cstart: "c = startV" if "S = {}"
    using first that c(3,4) unfolding inv_first_def by blast
  have first': "inv_first startV D (insert c S)"
  proof -
    have "startV \<in> insert c S"
    proof (cases "S = {}")
      case True
      with cstart show ?thesis by simp
    next
      case False
      with first show ?thesis unfolding inv_first_def by simp
    qed
    then show ?thesis unfolding inv_first_def by simp
  qed
  have lower': "inv_lower G startV D (insert c S)"
    unfolding inv_lower_def
  proof (intro ballI allI impI)
    fix x p w assume x: "x \<in> insert c S" and p: "is_walk G startV x p" "path_weight G p = Some w"
    show "\<exists>dx. D x = Some dx \<and> dx \<le> w"
    proof (cases "x = c")
      case False
      with x lower p show ?thesis unfolding inv_lower_def by blast
    next
      case True
      from s have d0: "D startV = Some 0" unfolding inv_start_def by simp
      have "dc \<le> w"
      proof (cases "startV \<in> S")
        case False
        with first have "S = {}" unfolding inv_first_def by blast
        with cstart d0 c(3) have "dc = 0" by simp
        with path_weight_nonneg[OF nn p(2)] show ?thesis by simp
      next
        case sS: True
        from p(1) True have pp: "p \<noteq> []" "hd p = startV" "last p = c"
          by (simp_all add: is_walk_def)
        have "dc \<le> 0 + w"
          by (rule walk_leaves_visited[OF rel nn least p(2) pp(1), where a = 0 and dh = 0])
             (use pp sS d0 c(2) in simp_all)
        then show ?thesis by simp
      qed
      with True c(3) show ?thesis by simp
    qed
  qed
  have rel': "inv_relaxed G D (insert c S) ({c} \<times> neighbors G c)"
    unfolding inv_relaxed_def
  proof (intro ballI allI impI)
    fix x y w assume x: "x \<in> insert c S" and g: "getWeight G x y = Some w"
    show "(x, y) \<in> {c} \<times> neighbors G c \<or> (\<exists>dx dy. D x = Some dx \<and> D y = Some dy \<and> dy \<le> dx + w)"
    proof (cases "x = c")
      case True
      with getWeight_neighbors[OF g] show ?thesis by simp
    next
      case False
      with x rel g show ?thesis unfolding inv_relaxed_def by blast
    qed
  qed
  from root first' lower' rel' show ?thesis by (simp add: oinv_def)
qed

lemma oinv_relax:
  assumes inv: "dinv G startV rank D P Q S" and o: "oinv G startV D P S ({c} \<times> insert a A)"
    and b: "below D S dc"
    and c: "c \<in> S" "D c = Some dc"
    and w: "getWeight G c a = Some w" "0 \<le> w"
    and a: "D a = Some da" "dc + w < da"
  shows "oinv G startV (D(a \<mapsto> dc + w)) (P(a \<mapsto> c)) S ({c} \<times> A)"
proof -
  let ?VS = "set (Vertices G)"
  let ?D = "D(a \<mapsto> dc + w)" and ?P = "P(a \<mapsto> c)"
  from inv have k: "inv_keys ?VS D P Q S" by (simp add: dinv_def)
  from o have root: "inv_root ?VS startV D P" and first: "inv_first startV D S"
    and lower: "inv_lower G startV D S" and rel: "inv_relaxed G D S ({c} \<times> insert a A)"
    by (simp_all add: oinv_def)
  have aS: "a \<notin> S"
  proof
    assume "a \<in> S"
    with b a(1) have "da \<le> dc" unfolding below_def by blast
    with a(2) w(2) show False by simp
  qed
  from k c(1) have cV: "c \<in> ?VS" unfolding inv_keys_def by blast
  have root': "inv_root ?VS startV ?D ?P"
    unfolding inv_root_def
  proof (intro impI allI)
    fix v assume m: "- 1 \<notin> ?VS" and v: "v \<noteq> startV" "?P v = Some (- 1)"
    from m cV have "c \<noteq> - 1" by auto
    with v(2) have va: "v \<noteq> a" by auto
    with v(2) have "P v = Some (- 1)" by simp
    with root m v(1) have "D v = Some INF_dbl" unfolding inv_root_def by blast
    with va show "?D v = Some INF_dbl" by simp
  qed
  have first': "inv_first startV ?D S"
    using first c(1) unfolding inv_first_def by auto
  have lower': "inv_lower G startV ?D S"
    unfolding inv_lower_def
  proof (intro ballI allI impI)
    fix x p u assume x: "x \<in> S" and p: "is_walk G startV x p" "path_weight G p = Some u"
    from x aS have "x \<noteq> a" by auto
    moreover from lower x p have "\<exists>dx. D x = Some dx \<and> dx \<le> u" unfolding inv_lower_def by blast
    ultimately show "\<exists>dx. ?D x = Some dx \<and> dx \<le> u" by simp
  qed
  have rel': "inv_relaxed G ?D S ({c} \<times> A)"
    unfolding inv_relaxed_def
  proof (intro ballI allI impI)
    fix x y u assume x: "x \<in> S" and g: "getWeight G x y = Some u"
    from x aS have xa: "x \<noteq> a" by auto
    from rel x g
    consider "(x, y) \<in> {c} \<times> insert a A"
      | dx dy where "D x = Some dx" "D y = Some dy" "dy \<le> dx + u"
      unfolding inv_relaxed_def by blast
    then show "(x, y) \<in> {c} \<times> A \<or> (\<exists>dx dy. ?D x = Some dx \<and> ?D y = Some dy \<and> dy \<le> dx + u)"
    proof cases
      case 1
      show ?thesis
      proof (cases "y = a")
        case True
        with 1 g w(1) have "u = w" "x = c" by auto
        with True c(2) xa show ?thesis by auto
      next
        case False
        with 1 show ?thesis by auto
      qed
    next
      case 2
      show ?thesis
      proof (cases "y = a")
        case True
        with 2 a have "dc + w \<le> dx + u" by simp
        with True 2(1) xa show ?thesis by auto
      next
        case False
        with 2 xa show ?thesis by auto
      qed
    qed
  qed
  from root' first' lower' rel' show ?thesis by (simp add: oinv_def)
qed

lemma oinv_norelax:
  assumes o: "oinv G startV D P S ({c} \<times> insert a A)"
    and c: "D c = Some dc"
    and w: "getWeight G c a = Some w"
    and a: "D a = Some da" "\<not> dc + w < da"
  shows "oinv G startV D P S ({c} \<times> A)"
proof -
  from o have rel: "inv_relaxed G D S ({c} \<times> insert a A)" by (simp add: oinv_def)
  have "inv_relaxed G D S ({c} \<times> A)"
    unfolding inv_relaxed_def
  proof (intro ballI allI impI)
    fix x y u assume x: "x \<in> S" and g: "getWeight G x y = Some u"
    from rel x g
    consider "(x, y) \<in> {c} \<times> insert a A"
      | dx dy where "D x = Some dx" "D y = Some dy" "dy \<le> dx + u"
      unfolding inv_relaxed_def by blast
    then show "(x, y) \<in> {c} \<times> A \<or> (\<exists>dx dy. D x = Some dx \<and> D y = Some dy \<and> dy \<le> dx + u)"
    proof cases
      case 1
      show ?thesis
      proof (cases "y = a")
        case True
        with 1 g w have "u = w" "x = c" by auto
        with True c a show ?thesis by auto
      next
        case False
        with 1 show ?thesis by auto
      qed
    next
      case 2
      then show ?thesis by blast
    qed
  qed
  with o show ?thesis by (simp add: oinv_def)
qed

text \<open>The inner loop works off the pending edges of the vertex being visited.\<close>

lemma relax_loop_oinv:
  assumes G: "graph_inv G" "nonneg_weights G"
  shows "set vs \<subseteq> neighbors G c \<Longrightarrow> sinv G startV rank s \<Longrightarrow> c \<in> visitedVertices s \<Longrightarrow>
         map_of (distances s) c = Some dc \<Longrightarrow>
         below (map_of (distances s)) (visitedVertices s) dc \<Longrightarrow>
         soinv G startV s ({c} \<times> set vs) \<Longrightarrow>
         relax_loop G c vs s = Inr s' \<Longrightarrow> soinv G startV s' {}"
proof (induction vs arbitrary: s)
  case Nil
  then show ?case by simp
next
  case (Cons a vs)
  from Cons.prems have an: "a \<in> neighbors G c" and vs: "set vs \<subseteq> neighbors G c" by auto
  from getWeight_neighbor[OF G(1) an] obtain w where w: "getWeight G c a = Some w" ..
  with G(2) have w0: "0 \<le> w" unfolding nonneg_weights_def by blast
  from neighbors_in_Vertices[OF G(1) an] have aV: "a \<in> set (Vertices G)" .
  from Cons.prems(2) have "dom (map_of (distances s)) = set (Vertices G)"
    by (simp add: dinv_def inv_keys_def)
  with aV obtain da where da: "map_of (distances s) a = Some da" by blast
  define s1 where "s1 = s\<lparr>edgeWeight := Some w\<rparr>"
  have dc1: "map_at (distances s1) c = Inr dc" and da1: "map_at (distances s1) a = Inr da"
    using Cons.prems(4) da by (simp_all add: s1_def map_at_Inr_iff)
  have step: "relax_loop G c (a # vs) s =
      (if dc + w < da
       then relax_loop G c vs
              (s1\<lparr>distances := map_emplace a (dc + w) (map_erase a (distances s1)),
                   predecessors := map_emplace a c (map_erase a (predecessors s1)),
                   unvisitedQ := pq_push (a, dc + w) (unvisitedQ s1)\<rparr>)
       else relax_loop G c vs s1)"
    using w dc1 da1 by (simp add: Let_def s1_def)
  from Cons.prems(6) have o: "soinv G startV s ({c} \<times> insert a (set vs))" by simp
  show ?case
  proof (cases "dc + w < da")
    case False
    have "sinv G startV rank s1" using Cons.prems(2) by (simp add: s1_def)
    moreover have "c \<in> visitedVertices s1" "map_of (distances s1) c = Some dc"
      "below (map_of (distances s1)) (visitedVertices s1) dc"
      using Cons.prems(3,4,5) by (simp_all add: s1_def)
    moreover from oinv_norelax[OF o Cons.prems(4) w da False]
    have "soinv G startV s1 ({c} \<times> set vs)" by (simp add: s1_def)
    moreover from Cons.prems(7) step False have "relax_loop G c vs s1 = Inr s'" by simp
    ultimately show ?thesis using Cons.IH[OF vs] by blast
  next
    case True
    define s2 where "s2 = s1\<lparr>distances := map_emplace a (dc + w) (map_erase a (distances s1)),
                   predecessors := map_emplace a c (map_erase a (predecessors s1)),
                   unvisitedQ := pq_push (a, dc + w) (unvisitedQ s1)\<rparr>"
    from dinv_relax[OF Cons.prems(2) Cons.prems(5) Cons.prems(3) Cons.prems(4) w w0 da True]
    have "sinv G startV rank s2" "below (map_of (distances s2)) (visitedVertices s2) dc"
      "map_of (distances s2) c = Some dc"
      by (simp_all add: s2_def s1_def map_of_emplace_erase pq_push_def)
    moreover have "c \<in> visitedVertices s2" using Cons.prems(3) by (simp add: s2_def s1_def)
    moreover
    from oinv_relax[OF Cons.prems(2) o Cons.prems(5) Cons.prems(3) Cons.prems(4) w w0 da True]
    have "soinv G startV s2 ({c} \<times> set vs)"
      by (simp add: s2_def s1_def map_of_emplace_erase)
    moreover from Cons.prems(7) step True have "relax_loop G c vs s2 = Inr s'"
      by (simp add: s2_def)
    ultimately show ?thesis using Cons.IH[OF vs] by blast
  qed
qed

lemma main_loop_oinv:
  "graph_inv G \<Longrightarrow> nonneg_weights G \<Longrightarrow> sinv G startV rank s \<Longrightarrow> soinv G startV s {} \<Longrightarrow>
   endV \<notin> visitedVertices s \<Longrightarrow> (\<forall>v. cur = Some v \<longrightarrow> v \<noteq> endV) \<Longrightarrow>
   main_loop tie G endV s cur = Inr (s', cur') \<Longrightarrow>
   soinv G startV s' {} \<and> (endV \<notin> visitedVertices s' \<longrightarrow> unvisited_far s') \<and>
   (cur' \<noteq> Some endV \<longrightarrow> endV \<notin> visitedVertices s')"
proof (induction tie G endV s cur arbitrary: rank rule: main_loop.induct)
  case (1 tie G endV s cur)
  note G = "1.prems"(1,2) and inv = "1.prems"(3) and o = "1.prems"(4) and nend = "1.prems"(5)
    and res = "1.prems"(7)
  show ?case
  proof (cases "pq_empty (unvisitedQ s)")
    case True
    with res have eq: "s' = s" "cur' = cur" by (simp_all add: main_loop_empty)
    from True have Q: "set (content (unvisitedQ s)) = {}" by (simp add: pq_empty_def)
    from inv have "inv_queue (set (Vertices G)) (map_of (distances s)) (set (content (unvisitedQ s)))
        (visitedVertices s)"
      and "inv_keys (set (Vertices G)) (map_of (distances s)) (map_of (predecessors s))
        (set (content (unvisitedQ s))) (visitedVertices s)" by (simp_all add: dinv_def)
    with Q have "unvisited_far s" unfolding unvisited_far_def inv_queue_def inv_keys_def
      by (metis domI empty_iff)
    with o nend eq show ?thesis by simp
  next
    case False
    define e where "e = pq_top tie (unvisitedQ s)"
    define c where "c = fst (pq_top tie (unvisitedQ s))"
    define s1 where "s1 = s\<lparr>unvisitedQ := pq_pop tie (unvisitedQ s)\<rparr>"
    from False have ne: "content (unvisitedQ s) \<noteq> []" by (simp add: pq_empty_def)
    have eQ: "e \<in> set (content (unvisitedQ s))"
      unfolding e_def using ne by (rule pq_top_in_content)
    have emin: "\<forall>e'\<in>set (content (unvisitedQ s)). snd e \<le> snd e'"
      unfolding e_def using pq_top_minimal[OF ne] by blast
    have ec: "fst e = c" by (simp add: e_def c_def)
    from sinv_queue_vertex[OF inv eQ] ec have cV: "c \<in> set (Vertices G)" by simp
    have q1: "set (content (unvisitedQ s1)) \<subseteq> set (content (unvisitedQ s))"
      by (simp add: s1_def pq_pop_def set_remove1_subset)
    have q2: "set (content (unvisitedQ s)) - {e} \<subseteq> set (content (unvisitedQ s1))"
    proof
      fix x assume "x \<in> set (content (unvisitedQ s)) - {e}"
      then have "x \<in> set (content (unvisitedQ s))" "x \<noteq> e" by auto
      then have "x \<in> set (remove1 e (content (unvisitedQ s)))" by (simp add: in_set_remove1)
      then show "x \<in> set (content (unvisitedQ s1))" by (simp add: s1_def pq_pop_def e_def)
    qed
    have same: "distances s1 = distances s" "predecessors s1 = predecessors s"
      "visitedVertices s1 = visitedVertices s" by (simp_all add: s1_def)
    from o same have o1: "soinv G startV s1 {}" by simp
    from sinv_distance[OF inv cV] obtain d where d: "map_of (distances s) c = Some d" ..
    then have d1: "map_at (distances s1) c = Inr d" by (simp add: same map_at_Inr_iff)
    note step = main_loop_step[OF False c_def s1_def d1, of G endV cur]
    show ?thesis
    proof (cases "d = INF_dbl")
      case True
      with step res have eq: "s' = s1" "cur' = Some c" by simp_all
      from inv have q: "inv_queue (set (Vertices G)) (map_of (distances s))
          (set (content (unvisitedQ s))) (visitedVertices s)"
        and k: "inv_keys (set (Vertices G)) (map_of (distances s)) (map_of (predecessors s))
          (set (content (unvisitedQ s))) (visitedVertices s)" by (simp_all add: dinv_def)
      from q eQ ec d True have top: "INF_dbl \<le> snd e" unfolding inv_queue_def by blast
      have "unvisited_far s"
        unfolding unvisited_far_def
      proof (intro allI impI)
        fix y dy assume y: "y \<notin> visitedVertices s" "map_of (distances s) y = Some dy"
        with k have "y \<in> set (Vertices G)" unfolding inv_keys_def by blast
        with q y have "(y, dy) \<in> set (content (unvisitedQ s))" unfolding inv_queue_def by blast
        with emin have "snd e \<le> dy" by force
        with top show "INF_dbl \<le> dy" by simp
      qed
      then have "unvisited_far s1" by (simp add: unvisited_far_def same)
      with o1 nend eq same show ?thesis by simp
    next
      case nINF: False
      show ?thesis
      proof (cases "c \<in> visitedVertices s1")
        case True
        with nend same have cne: "c \<noteq> endV" by auto
        from dinv_skip[OF inv q1 q2] True ec have i1: "sinv G startV rank s1" by (simp add: same)
        from step nINF True res have r1: "main_loop tie G endV s1 (Some c) = Inr (s', cur')"
          by simp
        have n1: "endV \<notin> visitedVertices s1" using nend same by simp
        have c1: "\<forall>v. Some c = Some v \<longrightarrow> v \<noteq> endV" using cne by simp
        from "1.IH"(1)[OF False c_def s1_def d1 nINF True G i1 o1 n1 c1 r1]
        show ?thesis .
      next
        case nv: False
        define s2 where "s2 = s1\<lparr>visitedVertices := insert c (visitedVertices s1)\<rparr>"
        define rank2 where "rank2 = rank(c := card (visitedVertices s))"
        from nv same have nv': "c \<notin> visitedVertices s" by simp
        from dinv_visit[OF inv q1 q2 eQ emin ec nv' d nINF]
        have i2: "sinv G startV rank2 s2"
          and b2: "below (map_of (distances s2)) (visitedVertices s2) d"
          by (simp_all add: s2_def rank2_def same)
        have c2: "c \<in> visitedVertices s2" "map_of (distances s2) c = Some d"
          using d by (simp_all add: s2_def same)
        have nb: "set (sorted_list_of_set (neighbors G c)) \<subseteq> neighbors G c"
          by (simp add: neighbors_def split: option.splits)
        have fin: "finite (neighbors G c)" by (simp add: neighbors_def split: option.splits)
        from oinv_visit[OF inv o G(2) eQ emin ec nv' d nINF]
        have o2: "soinv G startV s2 ({c} \<times> set (sorted_list_of_set (neighbors G c)))"
          using fin by (simp add: s2_def same)
        from relax_loop_inv[OF G nb i2 c2 b2]
        obtain s3 where s3: "relax_loop G c (sorted_list_of_set (neighbors G c)) s2 = Inr s3"
          "sinv G startV rank2 s3" "visitedVertices s3 = visitedVertices s2" by blast
        from relax_loop_oinv[OF G nb i2 c2 b2 o2 s3(1)] have o3: "soinv G startV s3 {}" .
        note step' = step[folded s2_def]
        show ?thesis
        proof (cases "c = endV")
          case True
          with step' nINF nv s3(1) res have "s' = s3" "cur' = Some endV" by simp_all
          moreover have "endV \<in> visitedVertices s3" using s3(3) True by (simp add: s2_def)
          ultimately show ?thesis using o3 by simp
        next
          case cne: False
          have n3: "endV \<notin> visitedVertices s3" using s3(3) nend cne by (simp add: s2_def same)
          from step' nINF nv s3(1) cne res
          have r3: "main_loop tie G endV s3 (Some c) = Inr (s', cur')" by simp
          have c3: "\<forall>v. Some c = Some v \<longrightarrow> v \<noteq> endV" using cne by simp
          from "1.IH"(2)[OF False c_def s1_def d1 nINF nv s2_def s3(1) cne G s3(2) o3 n3 c3 r3]
          show ?thesis .
        qed
      qed
    qed
  qed
qed


lemma initial_oinv:
  assumes "fresh s1 (set (Vertices G))" and "startV \<in> set (Vertices G)"
  shows "soinv G startV
           (s1\<lparr>distances := map_assign startV 0 (distances s1),
               unvisitedQ := pq_push (startV, 0) (unvisitedQ s1)\<rparr>) {}"
proof -
  let ?VS = "set (Vertices G)"
  let ?D = "\<lambda>v. if v = startV then Some (0::real) else if v \<in> ?VS then Some INF_dbl else None"
  let ?P = "\<lambda>v. if v \<in> ?VS then Some (- 1 :: int) else None"
  have D: "map_of (map_assign startV 0 (distances s1)) = ?D"
    using assms by (auto simp: fresh_def map_of_map_assign fun_eq_iff)
  have P: "map_of (predecessors s1) = ?P" using assms(1) by (simp add: fresh_def)
  have S: "visitedVertices s1 = {}" using assms(1) by (simp add: fresh_def)
  have r: "inv_root ?VS startV ?D ?P" unfolding inv_root_def by (auto split: if_splits)
  have f: "inv_first startV ?D {}" unfolding inv_first_def by (auto split: if_splits)
  have l: "inv_lower G startV ?D {}" by (simp add: inv_lower_def)
  have x: "inv_relaxed G ?D {} {}" by (simp add: inv_relaxed_def)
  from r f l x show ?thesis by (simp add: oinv_def D P S)
qed

text \<open>
  The walk back through the predecessors of a visited vertex ends at the start, and read
  backwards it is a walk of the graph whose weight is the distance of the vertex.
\<close>

lemma path_weight_snoc:
  "p \<noteq> [] \<Longrightarrow> path_weight G (p @ [b]) =
     (case path_weight G p of
        None \<Rightarrow> None
      | Some r \<Rightarrow> (case getWeight G (last p) b of None \<Rightarrow> None | Some w \<Rightarrow> Some (r + w)))"
proof (induction p rule: induct_list012)
  case 1
  then show ?case by simp
next
  case (2 x)
  show ?case by (simp split: option.splits)
next
  case (3 x y zs)
  from "3.IH"(2) show ?case by (simp split: option.splits)
qed

lemma backTrace_loop_walk:
  assumes f: "final_inv G startV rank s" and o: "soinv G startV s {}"
    and m: "- 1 \<notin> set (Vertices G)"
  shows "bt \<in> visitedVertices s \<Longrightarrow>
         \<exists>ch. backTrace_loop (predecessors s) bt path = Some (Inr (path @ ch)) \<and>
              is_walk G startV bt (rev ch) \<and>
              path_weight G (rev ch) = map_of (distances s) bt"
proof (induction "rank bt" arbitrary: bt path rule: less_induct)
  case less
  let ?D = "map_of (distances s)" and ?P = "map_of (predecessors s)"
  from f have k: "inv_keys (set (Vertices G)) ?D ?P {} (visitedVertices s)"
    and ip: "inv_pred G rank ?D ?P (visitedVertices s)"
    and dn: "inv_done ?D {} (visitedVertices s)"
    and st: "inv_start startV ?D ?P"
    by (simp_all add: final_inv_def)
  from o have root: "inv_root (set (Vertices G)) startV ?D ?P" by (simp add: oinv_def)
  from k less.prems have bV: "bt \<in> set (Vertices G)" unfolding inv_keys_def by blast
  with m have bn: "bt \<noteq> - 1" by auto
  from k bV obtain p d where p: "?P bt = Some p" and d: "?D bt = Some d"
    unfolding inv_keys_def by blast
  from p have at: "map_at (predecessors s) bt = Inr p" by (simp add: map_at_Inr_iff)
  from dn less.prems d have dfin: "d \<noteq> INF_dbl" unfolding inv_done_def by blast
  have unf: "backTrace_loop (predecessors s) bt path =
      backTrace_loop (predecessors s) p (path @ [bt])"
    using bn at by (subst backTrace_loop.simps) simp
  show ?case
  proof (cases "p = - 1")
    case True
    have bs: "bt = startV"
    proof (rule ccontr)
      assume "bt \<noteq> startV"
      with root m p True have "?D bt = Some INF_dbl" unfolding inv_root_def by blast
      with d dfin show False by simp
    qed
    with st d have d0: "d = 0" unfolding inv_start_def by simp
    have "backTrace_loop (predecessors s) p (path @ [bt]) = Some (Inr (path @ [bt]))"
      using True by (subst backTrace_loop.simps) simp
    with unf bs d d0 show ?thesis
      by (intro exI[of _ "[bt]"]) (simp add: is_walk_def)
  next
    case False
    with ip p less.prems have pS: "p \<in> visitedVertices s" and rk: "rank p < rank bt"
      and ex: "\<exists>w dp dv. getWeight G p bt = Some w \<and> ?D p = Some dp \<and> ?D bt = Some dv \<and> dv = dp + w"
      unfolding inv_pred_def by blast+
    from ex d obtain w dp where w: "getWeight G p bt = Some w" and dp: "?D p = Some dp"
      and dd: "d = dp + w" by auto
    from less.hyps[OF rk pS, of "path @ [bt]"]
    obtain ch where ch: "backTrace_loop (predecessors s) p (path @ [bt]) = Some (Inr ((path @ [bt]) @ ch))"
      "is_walk G startV p (rev ch)" "path_weight G (rev ch) = ?D p" by blast
    from ch(2) have rc: "rev ch \<noteq> []" "hd (rev ch) = startV" "last (rev ch) = p"
      by (simp_all add: is_walk_def)
    from path_weight_snoc[OF rc(1), of G bt] ch(3) dp w rc(3) dd
    have pw: "path_weight G (rev ch @ [bt]) = Some d" by simp
    have "is_walk G startV bt (rev (bt # ch))"
      using rc pw by (simp add: is_walk_def)
    moreover have "path_weight G (rev (bt # ch)) = ?D bt" using pw d by simp
    moreover have "backTrace_loop (predecessors s) bt path = Some (Inr (path @ (bt # ch)))"
      using unf ch(1) by simp
    ultimately show ?thesis by blast
  qed
qed

lemma far_no_light_walk:
  assumes o: "soinv G startV s {}" and nn: "nonneg_weights G"
    and st: "map_of (distances s) startV = Some 0"
    and far: "unvisited_far s" and e: "endV \<notin> visitedVertices s"
    and p: "is_walk G startV endV p" "path_weight G p = Some w"
  shows "INF_dbl \<le> w"
proof -
  from o have rel: "inv_relaxed G (map_of (distances s)) (visitedVertices s) {}"
    by (simp add: oinv_def)
  from far have least: "\<forall>y dy. y \<notin> visitedVertices s \<longrightarrow> map_of (distances s) y = Some dy \<longrightarrow>
      INF_dbl \<le> dy" by (simp add: unvisited_far_def)
  from p(1) have pp: "p \<noteq> []" "hd p = startV" "last p = endV" by (simp_all add: is_walk_def)
  have sS: "startV \<in> visitedVertices s"
  proof (rule ccontr)
    assume "startV \<notin> visitedVertices s"
    with least st have "INF_dbl \<le> 0" by blast
    with INF_dbl_pos show False by simp
  qed
  have "INF_dbl \<le> 0 + w"
    by (rule walk_leaves_visited[OF rel nn least p(2) pp(1), where a = 0 and dh = 0])
       (use pp sS st e in simp_all)
  then show ?thesis by simp
qed

text \<open>
  On a graph without negative weights and without a vertex \<open>- 1\<close>, a call from a vertex of
  the graph returns a number and a path. When the number is neither \<open>- 1\<close> nor \<open>INF_dbl\<close>,
  the path read backwards is a walk from the start to the target, the number is its weight,
  and no walk between the two is lighter. When it is \<open>- 1\<close> or \<open>INF_dbl\<close>, every walk from
  the start to the target weighs \<open>INF_dbl\<close> or more; with weights whose sums stay below
  \<open>INF_dbl\<close> there is none.
\<close>

lemma Dijkstra_result:
  assumes G: "graph_inv G" "nonneg_weights G" and m: "- 1 \<notin> set (Vertices G)"
    and sV: "startV \<in> set (Vertices G)"
  shows "\<exists>d path. Dijkstra tie G startV endV [] = Some (Inr (d, path)) \<and>
         (if d = - 1 \<or> d = INF_dbl
          then \<forall>p w. is_walk G startV endV p \<longrightarrow> path_weight G p = Some w \<longrightarrow> INF_dbl \<le> w
          else is_walk G startV endV (rev path) \<and> path_weight G (rev path) = Some d \<and>
               (\<forall>p w. is_walk G startV endV p \<longrightarrow> path_weight G p = Some w \<longrightarrow> d \<le> w))"
proof -
  from setup_loop_fresh[OF fresh_init, of "getVertices G"]
  obtain s1 where s1: "setup_loop (getVertices G) dijkstra_init = Inr s1"
    "fresh s1 (set (Vertices G))" by (auto simp: getVertices_def)
  from s1(2) sV have dsome: "map_of (distances s1) startV \<noteq> None" by (simp add: fresh_def)
  define s2 where "s2 = s1\<lparr>distances := map_assign startV 0 (distances s1),
                  unvisitedQ := pq_push (startV, 0) (unvisitedQ s1)\<rparr>"
  have i2: "sinv G startV (\<lambda>v. 0) s2" unfolding s2_def using s1(2) sV by (rule initial_sinv)
  have o2: "soinv G startV s2 {}" unfolding s2_def using s1(2) sV by (rule initial_oinv)
  have ne: "\<not> pq_empty (unvisitedQ s2)" by (simp add: s2_def pq_empty_def pq_push_def)
  have nv: "endV \<notin> visitedVertices s2" using s1(2) by (simp add: s2_def fresh_def)
  from main_loop_inv[OF G i2 nv, of None tie] ne
  obtain s3 v rank' where ml: "main_loop tie G endV s2 None = Inr (s3, Some v)"
    "final_inv G startV rank' s3"
    "v = endV \<longrightarrow> endV \<in> visitedVertices s3 \<or> map_of (distances s3) endV = Some INF_dbl"
    by auto
  from main_loop_oinv[OF G i2 o2 nv _ ml(1)]
  have o3: "soinv G startV s3 {}"
    and far: "endV \<notin> visitedVertices s3 \<longrightarrow> unvisited_far s3"
    and nS: "v \<noteq> endV \<longrightarrow> endV \<notin> visitedVertices s3" by simp_all
  let ?D = "map_of (distances s3)" and ?P = "map_of (predecessors s3)"
  from ml(2) have k: "inv_keys (set (Vertices G)) ?D ?P {} (visitedVertices s3)"
    and ip: "inv_pred G rank' ?D ?P (visitedVertices s3)"
    and dn: "inv_done ?D {} (visitedVertices s3)"
    and st: "inv_start startV ?D ?P"
    by (simp_all add: final_inv_def)
  from st have d0: "?D startV = Some 0" and pos: "\<forall>v d. ?D v = Some d \<longrightarrow> 0 \<le> d"
    unfolding inv_start_def by blast+
  note unf = Dijkstra_unfold[OF s1(1) dsome, of tie endV "[]", folded s2_def]
  have light: "\<forall>p w. is_walk G startV endV p \<longrightarrow> path_weight G p = Some w \<longrightarrow> INF_dbl \<le> w"
    if "endV \<notin> visitedVertices s3"
    using far_no_light_walk[OF o3 G(2) d0 _ that] far that by blast
  show ?thesis
  proof (cases "v = endV")
    case False
    with unf ml(1) have "Dijkstra tie G startV endV [] = Some (Inr (- 1, []))" by simp
    with light nS False show ?thesis by simp
  next
    case True
    from ml(3) True k have eV: "endV \<in> set (Vertices G)" unfolding inv_keys_def by blast
    with k obtain p de where p: "?P endV = Some p" and de: "?D endV = Some de"
      unfolding inv_keys_def by blast
    from eV m have en: "endV \<noteq> - 1" by auto
    have bt: "backTrace_loop (predecessors s3) p ([] @ [endV]) =
        backTrace_loop (predecessors s3) endV []"
      using en p by (subst (2) backTrace_loop.simps) (simp add: map_at_def)
    from pos de have de0: "0 \<le> de" by blast
    show ?thesis
    proof (cases "endV \<in> visitedVertices s3")
      case False
      with ml(3) True de have inf: "de = INF_dbl" by simp
      from ip p have "p = - 1 \<or> p \<in> visitedVertices s3" unfolding inv_pred_def by blast
      from backTrace_loop_returns[OF ml(2) this, of "[] @ [endV]"]
      obtain path' where "backTrace_loop (predecessors s3) p ([] @ [endV]) = Some (Inr path')" ..
      with unf ml(1) True p de
      have "Dijkstra tie G startV endV [] = Some (Inr (de, path'))" by (simp add: map_at_def)
      with inf light[OF False] show ?thesis by simp
    next
      case vis: True
      from backTrace_loop_walk[OF ml(2) o3 m vis, of "[]"]
      obtain ch where ch: "backTrace_loop (predecessors s3) endV [] = Some (Inr ([] @ ch))"
        "is_walk G startV endV (rev ch)" "path_weight G (rev ch) = ?D endV" by blast
      with unf ml(1) True p de bt
      have eq: "Dijkstra tie G startV endV [] = Some (Inr (de, ch))" by (simp add: map_at_def)
      from dn vis de have "de \<noteq> INF_dbl" unfolding inv_done_def by blast
      moreover from de0 have "de \<noteq> - 1" by simp
      moreover from o3 have "inv_lower G startV ?D (visitedVertices s3)" by (simp add: oinv_def)
      with vis de have "\<forall>p w. is_walk G startV endV p \<longrightarrow> path_weight G p = Some w \<longrightarrow> de \<le> w"
        unfolding inv_lower_def by fastforce
      ultimately show ?thesis using eq ch(2,3) de by simp
    qed
  qed
qed

text \<open>The row of four vertices is such a graph.\<close>

lemma Dijkstra_result_chain4:
  "\<exists>d path. Dijkstra (\<lambda>h. 0) chain4 1 4 [] = Some (Inr (d, path)) \<and>
     (if d = - 1 \<or> d = INF_dbl
      then \<forall>p w. is_walk chain4 1 4 p \<longrightarrow> path_weight chain4 p = Some w \<longrightarrow> INF_dbl \<le> w
      else is_walk chain4 1 4 (rev path) \<and> path_weight chain4 (rev path) = Some d \<and>
           (\<forall>p w. is_walk chain4 1 4 p \<longrightarrow> path_weight chain4 p = Some w \<longrightarrow> d \<le> w))"
proof (rule Dijkstra_result)
  show "graph_inv chain4" unfolding chain4_def by (rule graph_inv_run_ops)
  show "nonneg_weights chain4" unfolding chain4_def by (rule nonneg_weights_run_ops) simp
  show "- 1 \<notin> set (Vertices chain4)" "1 \<in> set (Vertices chain4)"
    by (simp_all add: chain4_def run_ops_def addVertex_def addEdge_def graph_init_def Let_def)
qed

subsection \<open>An unreachable target can come back as a distance\<close>

lemma two_isolated_no_walk: "\<not> is_walk two_isolated 1 2 p"
proof
  assume w: "is_walk two_isolated 1 2 p"
  then obtain q where p: "p = 1 # q" by (cases p) (auto simp: is_walk_def)
  with w have "q \<noteq> []" by (auto simp: is_walk_def)
  then obtain v rest where q: "q = v # rest" by (cases q) auto
  have "getWeight two_isolated 1 v = None"
    by (simp add: getWeight_def two_isolated_def run_ops_def graph_init_def addVertex_def)
  with w p q show False by (simp add: is_walk_def)
qed

text \<open>
  C2 (the code breaks it). The graph has the vertices 1 and 2 and no edge, so 2 cannot be
  reached from 1. Whatever entry the queue yields among equal ones, the scan ends at the
  entry of vertex 2 with distance \<open>INF_dbl\<close>, \<^verbatim>\<open>currentV\<close> equals \<^verbatim>\<open>endV\<close>, and the call
  returns the number \<open>INF_dbl\<close> and the path \<open>[2]\<close> where it should return \<open>- 1\<close>.
\<close>

theorem Dijkstra_unreachable_returns_INF:
  "neighbors two_isolated 1 = {} \<and>
   Dijkstra tie two_isolated 1 2 [] = Some (Inr (INF_dbl, [2])) \<and>
   INF_dbl \<noteq> - 1 \<and> 0 < INF_dbl"
  by (simp add: two_isolated_Dijkstra two_isolated_neighbors)

text \<open>
  C1 (the code breaks it). On the same input the call returns a distance and a path
  although the graph has no walk from 1 to 2 at all, and the returned sequence does not
  lead back to the source.
\<close>

theorem Dijkstra_returns_distance_without_walk:
  "(\<exists>d p. Dijkstra tie two_isolated 1 2 [] = Some (Inr (d, p)) \<and> d \<noteq> - 1 \<and> last p \<noteq> 1) \<and>
   (\<forall>p. \<not> is_walk two_isolated 1 2 p)"
  by (simp add: two_isolated_Dijkstra two_isolated_no_walk)

text \<open>
  C9 (the code breaks it). On the same input the returned distance is \<open>INF_dbl\<close>, while
  the weights along the returned path, which has a single vertex, add up to 0.
\<close>

theorem Dijkstra_distance_differs_from_path_weight:
  "\<exists>d p. Dijkstra tie two_isolated 1 2 [] = Some (Inr (d, p)) \<and>
     path_weight two_isolated (rev p) = Some 0 \<and> d \<noteq> 0"
  by (simp add: two_isolated_Dijkstra)

subsection \<open>A target that is not a vertex\<close>

text \<open>
  C10. On a graph built from the empty one, with \<open>startV\<close> a vertex and \<open>endV\<close> not a
  vertex of it, \<open>Dijkstra\<close> returns: it throws nothing, and its result is \<open>- 1\<close> with the
  path vector as it was passed in.
\<close>

theorem Dijkstra_missing_target:
  assumes "startV \<in> set (getVertices (run_ops ops))"
    and "endV \<notin> set (getVertices (run_ops ops))"
  shows "Dijkstra tie (run_ops ops) startV endV path = Some (Inr (- 1, path))"
  using Dijkstra_missing_target_inv[OF graph_inv_run_ops assms] .

theorem Dijkstra_missing_target_witness:
  "1 \<in> set (getVertices chain4) \<and> 5 \<notin> set (getVertices chain4) \<and>
   Dijkstra (\<lambda>h. 0) chain4 1 5 [] = Some (Inr (- 1, []))"
proof -
  have v: "getVertices chain4 = [1, 2, 3, 4]"
    by (simp add: chain4_def run_ops_def graph_init_def addVertex_def addEdge_def getVertices_def)
  from Dijkstra_missing_target[of 1 "[AddVertex (1::int), AddVertex 2, AddVertex 3, AddVertex 4,
     AddEdge 1 2 (1::real), AddEdge 2 1 1, AddEdge 2 3 1, AddEdge 3 2 1, AddEdge 3 4 1,
     AddEdge 4 3 1]" 5 "\<lambda>h. 0" "[]", folded chain4_def] v
  show ?thesis by simp
qed

section \<open>Properties of the meeting-point query\<close>

subsection \<open>The query on the map in two parts\<close>

lemma split_graph_vertices: "getVertices split_graph = [1, 2, 3, 4]"
  by (simp add: split_graph_def run_ops_def graph_init_def addVertex_def addEdge_def getVertices_def)

lemma split_graph_edgeMap:
  "edgeMap split_graph = [1 \<mapsto> [\<lparr>toVert = 2, toWeight = 10\<rparr>], 2 \<mapsto> [\<lparr>toVert = 1, toWeight = 10\<rparr>],
     3 \<mapsto> [\<lparr>toVert = 4, toWeight = 10\<rparr>], 4 \<mapsto> [\<lparr>toVert = 3, toWeight = 10\<rparr>]]"
  by (rule ext) (simp add: split_graph_def run_ops_def graph_init_def addVertex_def addEdge_def)

lemma split_graph_neighbors:
  "sorted_list_of_set (neighbors split_graph 1) = [2]"
  "sorted_list_of_set (neighbors split_graph 2) = [1]"
  "sorted_list_of_set (neighbors split_graph 3) = [4]"
  "sorted_list_of_set (neighbors split_graph 4) = [3]"
  by (simp_all add: neighbors_def split_graph_edgeMap)

lemma split_graph_weights:
  "getWeight split_graph 1 2 = Some 10"
  "getWeight split_graph 2 1 = Some 10"
  "getWeight split_graph 3 4 = Some 10"
  "getWeight split_graph 4 3 = Some 10"
  by (simp_all add: getWeight_def split_graph_edgeMap)

lemmas split_graph_eval = split_graph_vertices split_graph_neighbors split_graph_weights

lemma split_1_4: "Dijkstra (\<lambda>h. 0) split_graph 1 4 [] = Some (Inr (- 1, []))"
  by (simp add: dijkstra_eval split_graph_eval)

lemma split_1_2: "Dijkstra (\<lambda>h. 0) split_graph 1 2 [] = Some (Inr (10, [2, 1]))"
  by (simp add: dijkstra_eval split_graph_eval)

lemma split_4_2: "Dijkstra (\<lambda>h. 0) split_graph 4 2 [] = Some (Inr (- 1, []))"
  by (simp add: dijkstra_eval split_graph_eval)

lemma split_buildings_at:
  "vector_at split_buildings 0 = Inr alpha_hall"
  "vector_at split_buildings 1 = Inr beta_hall"
  "vector_at split_buildings 2 = Inr gamma_hall"
  by (simp_all add: vector_at_def split_buildings_def)

lemma split_center:
  "getCenterBuildingIndex manhattan split_buildings (halfway 0 10 0 40) {} = 2"
  by (simp add: getCenterBuildingIndex_def split_buildings_def alpha_hall_def beta_hall_def
      gamma_hall_def manhattan_def halfway_def INF_dbl_cmp)

lemma split_closest:
  "getClosestNode manhattan split_nodes split_footways alpha_hall = Inr \<lparr>ID = 1, Lat = 0, Lon = 10\<rparr>"
  "getClosestNode manhattan split_nodes split_footways beta_hall = Inr \<lparr>ID = 4, Lat = 0, Lon = 40\<rparr>"
  "getClosestNode manhattan split_nodes split_footways gamma_hall = Inr \<lparr>ID = 2, Lat = 0, Lon = 20\<rparr>"
  by (simp_all add: getClosestNode_def alpha_hall_def beta_hall_def gamma_hall_def
      split_nodes_def split_footways_def manhattan_def map_at_def INF_dbl_cmp)

subsection \<open>Endpoints that cannot reach each other\<close>

text \<open>
  C4 as stated fails. On the map in two parts the query for Alpha Hall (node 1) and Beta
  Hall (node 4), whose nodes no way joins, ends with "destination unreachable", but only
  after Gamma Hall was chosen as the center and both legs to its node 2 were run.
\<close>

theorem unreachable_reported_after_center_counterexample:
  "meeting_query (\<lambda>h. 0) manhattan halfway split_nodes split_footways split_buildings split_graph 0 1 =
     Some ([CenterChosen 2, DijkstraRun 1 2, DijkstraRun 4 2, DijkstraRun 1 4],
           Inr DestinationUnreachable)"
proof -
  have c: "Lat (Coords alpha_hall) = 0" "Lon (Coords alpha_hall) = 10"
    "Lat (Coords beta_hall) = 0" "Lon (Coords beta_hall) = 40"
    by (simp_all add: alpha_hall_def beta_hall_def)
  show ?thesis
    by (simp add: meeting_query_def Let_def split_buildings_at c split_center split_closest
        split_1_2 split_4_2 split_1_4)
qed

text \<open>
  C4, amended. When both endpoint buildings, the first center and their three nearest nodes
  are found and the two runs to the center return, and the run from the first endpoint's
  node to the second's returns \<open>- 1\<close>, the query ends with "destination unreachable". By
  then it has chosen that first center and run both of its legs; it excludes no center and
  chooses no second one.
\<close>

theorem unreachable_reported_without_retry:
  assumes "vector_at Buildings firstIndex = Inr p1Building"
    and "vector_at Buildings secondIndex = Inr p2Building"
    and "midpoint = centerBetween2Points (Lat (Coords p1Building)) (Lon (Coords p1Building))
           (Lat (Coords p2Building)) (Lon (Coords p2Building))"
    and "idx = getCenterBuildingIndex distBetween2Points Buildings midpoint {}"
    and "vector_at Buildings idx = Inr centerBuilding"
    and "getClosestNode distBetween2Points NodeMap Footways p1Building = Inr p1Coords"
    and "getClosestNode distBetween2Points NodeMap Footways p2Building = Inr p2Coords"
    and "getClosestNode distBetween2Points NodeMap Footways centerBuilding = Inr centerCoords"
    and "Dijkstra tie G (ID p1Coords) (ID centerCoords) [] = Some (Inr leg1)"
    and "Dijkstra tie G (ID p2Coords) (ID centerCoords) [] = Some (Inr leg2)"
    and "Dijkstra tie G (ID p1Coords) (ID p2Coords) [] = Some (Inr (- 1, validPath))"
  shows "meeting_query tie distBetween2Points centerBetween2Points NodeMap Footways Buildings G
           firstIndex secondIndex =
         Some ([CenterChosen idx,
                DijkstraRun (ID p1Coords) (ID centerCoords),
                DijkstraRun (ID p2Coords) (ID centerCoords),
                DijkstraRun (ID p1Coords) (ID p2Coords)],
               Inr DestinationUnreachable)"
proof -
  from assms(1) have f: "firstIndex \<noteq> - 1" by (auto simp: vector_at_def split: if_splits)
  from assms(2) have s: "secondIndex \<noteq> - 1" by (auto simp: vector_at_def split: if_splits)
  obtain d1 path1 where l1: "leg1 = (d1, path1)" by (cases leg1)
  obtain d2 path2 where l2: "leg2 = (d2, path2)" by (cases leg2)
  show ?thesis
    using f s assms(1,2) assms(5-11)[unfolded l1 l2]
    unfolding meeting_query_def Let_def assms(4) assms(3)
    by simp
qed

theorem unreachable_reported_without_retry_witness:
  "vector_at split_buildings 0 = Inr alpha_hall \<and>
   vector_at split_buildings 1 = Inr beta_hall \<and>
   vector_at split_buildings (getCenterBuildingIndex manhattan split_buildings
      (halfway (Lat (Coords alpha_hall)) (Lon (Coords alpha_hall))
         (Lat (Coords beta_hall)) (Lon (Coords beta_hall))) {}) = Inr gamma_hall \<and>
   getClosestNode manhattan split_nodes split_footways alpha_hall = Inr \<lparr>ID = 1, Lat = 0, Lon = 10\<rparr> \<and>
   getClosestNode manhattan split_nodes split_footways beta_hall = Inr \<lparr>ID = 4, Lat = 0, Lon = 40\<rparr> \<and>
   getClosestNode manhattan split_nodes split_footways gamma_hall = Inr \<lparr>ID = 2, Lat = 0, Lon = 20\<rparr> \<and>
   Dijkstra (\<lambda>h. 0) split_graph 1 2 [] = Some (Inr (10, [2, 1])) \<and>
   Dijkstra (\<lambda>h. 0) split_graph 4 2 [] = Some (Inr (- 1, [])) \<and>
   Dijkstra (\<lambda>h. 0) split_graph 1 4 [] = Some (Inr (- 1, [])) \<and>
   meeting_query (\<lambda>h. 0) manhattan halfway split_nodes split_footways split_buildings
       split_graph 0 1 =
     Some ([CenterChosen 2, DijkstraRun 1 2, DijkstraRun 4 2, DijkstraRun 1 4],
           Inr DestinationUnreachable)"
proof -
  have c: "Lat (Coords alpha_hall) = 0" "Lon (Coords alpha_hall) = 10"
    "Lat (Coords beta_hall) = 0" "Lon (Coords beta_hall) = 40"
    by (simp_all add: alpha_hall_def beta_hall_def)
  have i: "getCenterBuildingIndex manhattan split_buildings
      (halfway (Lat (Coords alpha_hall)) (Lon (Coords alpha_hall))
         (Lat (Coords beta_hall)) (Lon (Coords beta_hall))) {} = 2"
    by (simp add: c split_center)
  have g: "vector_at split_buildings (getCenterBuildingIndex manhattan split_buildings
      (halfway (Lat (Coords alpha_hall)) (Lon (Coords alpha_hall))
         (Lat (Coords beta_hall)) (Lon (Coords beta_hall))) {}) = Inr gamma_hall"
    by (simp add: i split_buildings_at)
  have r: "Dijkstra (\<lambda>h. 0) split_graph (ID \<lparr>ID = 1, Lat = 0, Lon = 10\<rparr>)
             (ID \<lparr>ID = 2, Lat = 0, Lon = 20\<rparr>) [] = Some (Inr (10, [2, 1]))"
    "Dijkstra (\<lambda>h. 0) split_graph (ID \<lparr>ID = 4, Lat = 0, Lon = 40\<rparr>)
             (ID \<lparr>ID = 2, Lat = 0, Lon = 20\<rparr>) [] = Some (Inr (- 1, []))"
    "Dijkstra (\<lambda>h. 0) split_graph (ID \<lparr>ID = 1, Lat = 0, Lon = 10\<rparr>)
             (ID \<lparr>ID = 4, Lat = 0, Lon = 40\<rparr>) [] = Some (Inr (- 1, []))"
    by (simp_all add: split_1_2 split_4_2 split_1_4)
  note w = unreachable_reported_without_retry[where Buildings = split_buildings
      and firstIndex = 0 and secondIndex = 1 and p1Building = alpha_hall
      and p2Building = beta_hall and centerBetween2Points = halfway
      and distBetween2Points = manhattan and centerBuilding = gamma_hall
      and NodeMap = split_nodes and Footways = split_footways
      and midpoint = "halfway (Lat (Coords alpha_hall)) (Lon (Coords alpha_hall))
         (Lat (Coords beta_hall)) (Lon (Coords beta_hall))"
      and idx = "getCenterBuildingIndex manhattan split_buildings
         (halfway (Lat (Coords alpha_hall)) (Lon (Coords alpha_hall))
           (Lat (Coords beta_hall)) (Lon (Coords beta_hall))) {}"
      and ?p1Coords = "\<lparr>ID = 1, Lat = 0, Lon = 10\<rparr>"
      and ?p2Coords = "\<lparr>ID = 4, Lat = 0, Lon = 40\<rparr>"
      and centerCoords = "\<lparr>ID = 2, Lat = 0, Lon = 20\<rparr>"
      and tie = "\<lambda>h. 0" and G = split_graph and ?leg1.0 = "(10, [2, 1])"
      and ?leg2.0 = "(- 1, [])" and validPath = "[]"]
  from w[OF split_buildings_at(1) split_buildings_at(2) refl refl g split_closest(1)
      split_closest(2) split_closest(3) r]
  show ?thesis
    by (simp add: i g split_buildings_at split_closest split_1_2 split_4_2 split_1_4)
qed

subsection \<open>The query on the map with three buildings of one name\<close>

lemma same_name_graph_vertices: "getVertices same_name_graph = [1, 2, 3, 5, 6]"
  by (simp add: same_name_graph_def run_ops_def graph_init_def addVertex_def addEdge_def
      getVertices_def)

lemma same_name_graph_edgeMap:
  "edgeMap same_name_graph = [1 \<mapsto> [\<lparr>toVert = 2, toWeight = 10\<rparr>], 2 \<mapsto> [\<lparr>toVert = 1, toWeight = 10\<rparr>],
     3 \<mapsto> [], 5 \<mapsto> [\<lparr>toVert = 6, toWeight = 10\<rparr>], 6 \<mapsto> [\<lparr>toVert = 5, toWeight = 10\<rparr>]]"
  by (rule ext) (simp add: same_name_graph_def run_ops_def graph_init_def addVertex_def addEdge_def)

lemma same_name_graph_neighbors:
  "sorted_list_of_set (neighbors same_name_graph 1) = [2]"
  "sorted_list_of_set (neighbors same_name_graph 2) = [1]"
  "sorted_list_of_set (neighbors same_name_graph 3) = []"
  "sorted_list_of_set (neighbors same_name_graph 5) = [6]"
  "sorted_list_of_set (neighbors same_name_graph 6) = [5]"
  by (simp_all add: neighbors_def same_name_graph_edgeMap)

lemma same_name_graph_weights:
  "getWeight same_name_graph 1 2 = Some 10"
  "getWeight same_name_graph 2 1 = Some 10"
  "getWeight same_name_graph 5 6 = Some 10"
  "getWeight same_name_graph 6 5 = Some 10"
  by (simp_all add: getWeight_def same_name_graph_edgeMap)

lemmas same_name_graph_eval =
  same_name_graph_vertices same_name_graph_neighbors same_name_graph_weights

lemma same_name_1_5: "Dijkstra (\<lambda>h. 0) same_name_graph 1 5 [] = Some (Inr (- 1, []))"
  by (simp add: dijkstra_eval same_name_graph_eval)

lemma same_name_2_5: "Dijkstra (\<lambda>h. 0) same_name_graph 2 5 [] = Some (Inr (- 1, []))"
  by (simp add: dijkstra_eval same_name_graph_eval)

lemma same_name_1_2: "Dijkstra (\<lambda>h. 0) same_name_graph 1 2 [] = Some (Inr (10, [2, 1]))"
  by (simp add: dijkstra_eval same_name_graph_eval)

lemma same_name_buildings_at:
  "vector_at same_name_buildings 0 = Inr residence_a"
  "vector_at same_name_buildings 1 = Inr residence_b"
  "vector_at same_name_buildings 2 = Inr residence_c"
  "vector_at same_name_buildings (- 1) = Inl OutOfRange"
  by (simp_all add: vector_at_def same_name_buildings_def)

lemma same_name_center:
  "getCenterBuildingIndex manhattan same_name_buildings (halfway 0 10 0 20) {} = 2"
  "getCenterBuildingIndex manhattan same_name_buildings (halfway 0 10 0 20) {''Residence Hall''} = - 1"
  by (simp_all add: getCenterBuildingIndex_def same_name_buildings_def residence_a_def
      residence_b_def residence_c_def manhattan_def halfway_def INF_dbl_cmp)

lemma same_name_closest:
  "getClosestNode manhattan same_name_nodes same_name_footways residence_a = Inr \<lparr>ID = 1, Lat = 0, Lon = 10\<rparr>"
  "getClosestNode manhattan same_name_nodes same_name_footways residence_b = Inr \<lparr>ID = 2, Lat = 0, Lon = 20\<rparr>"
  "getClosestNode manhattan same_name_nodes same_name_footways residence_c = Inr \<lparr>ID = 5, Lat = 10, Lon = 15\<rparr>"
  by (simp_all add: getClosestNode_def residence_a_def residence_b_def residence_c_def
      same_name_nodes_def same_name_footways_def manhattan_def map_at_def INF_dbl_cmp)

subsection \<open>Running out of candidate centers\<close>

text \<open>
  C3 (the code breaks it). The three buildings share the full name "Residence Hall". The
  query for the first two, which a footway joins, takes the third as the center; neither
  endpoint reaches its node 5, so its name is excluded, which excludes every building.
  \<^verbatim>\<open>getCenterBuildingIndex\<close> returns \<open>- 1\<close> and \<^verbatim>\<open>Buildings.at(-1)\<close> throws: the query ends
  in \<^verbatim>\<open>std::out_of_range\<close>, not in a failure result.
\<close>

theorem exhausted_centers_out_of_range:
  "meeting_query (\<lambda>h. 0) manhattan halfway same_name_nodes same_name_footways
       same_name_buildings same_name_graph 0 1 =
     Some ([CenterChosen 2, DijkstraRun 1 5, DijkstraRun 2 5, DijkstraRun 1 2,
            CenterExcluded ''Residence Hall'', CenterChosen (- 1)],
           Inl OutOfRange)"
proof -
  have c: "Lat (Coords residence_a) = 0" "Lon (Coords residence_a) = 10"
    "Lat (Coords residence_b) = 0" "Lon (Coords residence_b) = 20"
    "Fullname residence_c = ''Residence Hall''"
    by (simp_all add: residence_a_def residence_b_def residence_c_def)
  show ?thesis
    by (simp add: meeting_query_def Let_def same_name_buildings_at c same_name_center
        same_name_closest same_name_1_5 same_name_2_5 same_name_1_2 retry_loop.simps)
qed

subsection \<open>The query on the map with an island\<close>

lemma same_name_1_1: "Dijkstra (\<lambda>h. 0) same_name_graph 1 1 [] = Some (Inr (0, [1]))"
  by (simp add: dijkstra_eval same_name_graph_eval)

lemma same_name_2_1: "Dijkstra (\<lambda>h. 0) same_name_graph 2 1 [] = Some (Inr (10, [1, 2]))"
  by (simp add: dijkstra_eval same_name_graph_eval)

lemma retry_buildings_at:
  "vector_at retry_buildings 0 = Inr north_hall"
  "vector_at retry_buildings 1 = Inr south_hall"
  "vector_at retry_buildings 2 = Inr island_hall"
  by (simp_all add: vector_at_def retry_buildings_def)

lemma retry_center:
  "getCenterBuildingIndex manhattan retry_buildings (halfway 0 10 0 20) {} = 2"
  "getCenterBuildingIndex manhattan retry_buildings (halfway 0 10 0 20) {''Island Hall''} = 0"
  by (simp_all add: getCenterBuildingIndex_def retry_buildings_def north_hall_def
      south_hall_def island_hall_def manhattan_def halfway_def INF_dbl_cmp)

lemma retry_closest:
  "getClosestNode manhattan same_name_nodes same_name_footways north_hall = Inr \<lparr>ID = 1, Lat = 0, Lon = 10\<rparr>"
  "getClosestNode manhattan same_name_nodes same_name_footways south_hall = Inr \<lparr>ID = 2, Lat = 0, Lon = 20\<rparr>"
  "getClosestNode manhattan same_name_nodes same_name_footways island_hall = Inr \<lparr>ID = 5, Lat = 10, Lon = 15\<rparr>"
  by (simp_all add: getClosestNode_def north_hall_def south_hall_def island_hall_def
      same_name_nodes_def same_name_footways_def manhattan_def map_at_def INF_dbl_cmp)

lemma retry_query:
  "meeting_query (\<lambda>h. 0) manhattan halfway same_name_nodes same_name_footways
       retry_buildings same_name_graph 0 1 =
     Some ([CenterChosen 2, DijkstraRun 1 5, DijkstraRun 2 5, DijkstraRun 1 2,
            CenterExcluded ''Island Hall'', CenterChosen 0, DijkstraRun 1 1, DijkstraRun 2 1],
           Inr (Found north_hall \<lparr>ID = 1, Lat = 0, Lon = 10\<rparr> 0 [1] 10 [1, 2]))"
proof -
  have c: "Lat (Coords north_hall) = 0" "Lon (Coords north_hall) = 10"
    "Lat (Coords south_hall) = 0" "Lon (Coords south_hall) = 20"
    "Fullname island_hall = ''Island Hall''"
    by (simp_all add: north_hall_def south_hall_def island_hall_def)
  show ?thesis
    by (simp add: meeting_query_def Let_def retry_buildings_at c retry_center
        retry_closest same_name_1_5 same_name_2_5 same_name_1_2 same_name_1_1 same_name_2_1
        retry_loop.simps print_result_def)
qed

subsection \<open>The retry loop is bounded\<close>

lemma retry_count_append [simp]: "retry_count (xs @ ys) = retry_count xs + retry_count ys"
  by (simp add: retry_count_def)

lemma retry_count_simps [simp]:
  "retry_count [] = 0"
  "retry_count (CenterExcluded n # tr) = Suc (retry_count tr)"
  "retry_count (CenterChosen i # tr) = retry_count tr"
  "retry_count (DijkstraRun a b # tr) = retry_count tr"
  by (simp_all add: retry_count_def)

lemma retry_loop_bound:
  assumes total: "\<And>a b. \<exists>r. Dijkstra tie G a b [] = Some r"
  shows "\<exists>tr' r. retry_loop tie d NodeMap Footways Buildings G midpoint p1Coords p2Coords
              centerBuilding invalidCenters tr = Some (tr', r) \<and>
           retry_count tr' \<le> retry_count tr +
             length (filter (\<lambda>b. Fullname b \<notin> insert (Fullname centerBuilding) invalidCenters)
                       Buildings) + 1"
  using total
proof (induction tie d NodeMap Footways Buildings G midpoint p1Coords p2Coords
    centerBuilding invalidCenters tr rule: retry_loop.induct)
  case (1 tie d NodeMap Footways Buildings G midpoint p1Coords p2Coords centerBuilding
      invalidCenters tr)
  define inv1 where "inv1 = insert (Fullname centerBuilding) invalidCenters"
  define tr1 where "tr1 = tr @ [CenterExcluded (Fullname centerBuilding)]"
  define idx where "idx = getCenterBuildingIndex d Buildings midpoint inv1"
  define tr2 where "tr2 = tr1 @ [CenterChosen idx]"
  define n where "n = length (filter (\<lambda>b. Fullname b \<notin> inv1) Buildings)"
  note unf = retry_loop.simps[of tie d NodeMap Footways Buildings G midpoint p1Coords p2Coords
      centerBuilding invalidCenters tr, unfolded Let_def, folded inv1_def, folded tr1_def,
      folded idx_def, folded tr2_def]
  have c2: "retry_count tr2 = retry_count tr + 1" by (simp add: tr2_def tr1_def)
  show ?case
  proof (cases "vector_at Buildings idx")
    case (Inl e)
    with unf c2 show ?thesis by (simp add: inv1_def)
  next
    case (Inr cb1)
    show ?thesis
    proof (cases "getClosestNode d NodeMap Footways cb1")
      case (Inl e)
      with unf Inr c2 show ?thesis by (simp add: inv1_def)
    next
      case cc: (Inr centerCoords)
      define tr3 where "tr3 = tr2 @ [DijkstraRun (ID p1Coords) (ID centerCoords)]"
      define tr4 where "tr4 = tr3 @ [DijkstraRun (ID p2Coords) (ID centerCoords)]"
      have c4: "retry_count tr4 = retry_count tr + 1" "retry_count tr3 = retry_count tr + 1"
        by (simp_all add: tr4_def tr3_def c2)
      from "1.prems"[of "ID p1Coords" "ID centerCoords"] obtain r1
        where r1: "Dijkstra tie G (ID p1Coords) (ID centerCoords) [] = Some r1" ..
      from "1.prems"[of "ID p2Coords" "ID centerCoords"] obtain r2
        where r2: "Dijkstra tie G (ID p2Coords) (ID centerCoords) [] = Some r2" ..
      show ?thesis
      proof (cases r1)
        case (Inl e)
        with unf Inr cc r1 c4 show ?thesis by (simp add: inv1_def tr3_def)
      next
        case l1: (Inr leg1)
        obtain d1 path1 where leg1: "leg1 = (d1, path1)" by (cases leg1)
        show ?thesis
        proof (cases r2)
          case (Inl e)
          with unf Inr cc r1 r2 l1 leg1 c4 show ?thesis
            by (simp add: inv1_def tr3_def tr4_def)
        next
          case l2: (Inr leg2)
          obtain d2 path2 where leg2: "leg2 = (d2, path2)" by (cases leg2)
          show ?thesis
          proof (cases "d1 = - 1 \<or> d2 = - 1")
            case False
            with unf Inr cc r1 r2 l1 leg1 l2 leg2 c4 show ?thesis
              by (simp add: inv1_def tr3_def tr4_def)
          next
            case True
            have eq: "retry_loop tie d NodeMap Footways Buildings G midpoint p1Coords p2Coords
                centerBuilding invalidCenters tr =
              retry_loop tie d NodeMap Footways Buildings G midpoint p1Coords p2Coords
                cb1 inv1 tr4"
              using unf Inr cc r1 r2 l1 leg1 l2 leg2 True by (simp add: tr3_def tr4_def)
            from "1.IH"[OF inv1_def tr1_def idx_def tr2_def Inr cc tr3_def
                r1 l1 leg1[symmetric] tr4_def r2 l2 leg2[symmetric] True "1.prems"]
            obtain tr' r where res: "retry_loop tie d NodeMap Footways Buildings G midpoint
                p1Coords p2Coords cb1 inv1 tr4 = Some (tr', r)"
              "retry_count tr' \<le> retry_count tr4 +
                length (filter (\<lambda>b. Fullname b \<notin> insert (Fullname cb1) inv1) Buildings) + 1"
              by blast
            from getCenterBuildingIndex_at[OF Inr[unfolded idx_def]]
            have "cb1 \<in> set Buildings" "Fullname cb1 \<notin> inv1" by blast+
            from exclude_decreases[OF this]
            have "length (filter (\<lambda>b. Fullname b \<notin> insert (Fullname cb1) inv1) Buildings) < n"
              by (simp add: n_def)
            with res(2) c4 have "retry_count tr' \<le> retry_count tr + n + 1" by simp
            with eq res(1) show ?thesis by (simp add: n_def inv1_def)
          qed
        qed
      qed
    qed
  qed
qed

lemma print_result_count:
  "\<exists>r'. print_result tr r = Some (tr, r')"
  by (cases r) (auto simp: print_result_def)

text \<open>
  C5. On a graph built from the empty one with edge weights that are not negative, every
  query returns (with a result or an exception), and the retry loop ran at most as many
  passes as there are buildings: each pass excludes the full name of a building that was
  not excluded before.
\<close>

theorem retry_cycle_bounded:
  assumes "list_all nonneg_op ops"
  shows "\<exists>tr r. meeting_query tie distBetween2Points centerBetween2Points NodeMap Footways
             Buildings (run_ops ops) firstIndex secondIndex = Some (tr, r) \<and>
           retry_count tr \<le> length Buildings"
proof -
  define G where "G = run_ops ops"
  have total: "\<exists>r. Dijkstra tie G a b [] = Some r" for a b
    unfolding G_def
    using Dijkstra_returns[OF graph_inv_run_ops nonneg_weights_run_ops[OF assms]] .
  let ?q = "meeting_query tie distBetween2Points centerBetween2Points NodeMap Footways
             Buildings G firstIndex secondIndex"
  have "\<exists>tr r. ?q = Some (tr, r) \<and> retry_count tr \<le> length Buildings"
  proof (cases "firstIndex = - 1 \<or> secondIndex = - 1")
    case True
    then show ?thesis by (auto simp: meeting_query_def)
  next
    case idx: False
    show ?thesis
    proof (cases "vector_at Buildings firstIndex")
      case (Inl e)
      with idx show ?thesis by (simp add: meeting_query_def)
    next
      case p1: (Inr p1Building)
      show ?thesis
      proof (cases "vector_at Buildings secondIndex")
        case (Inl e)
        with idx p1 show ?thesis by (simp add: meeting_query_def)
      next
        case p2: (Inr p2Building)
        define midpoint where "midpoint = centerBetween2Points (Lat (Coords p1Building))
            (Lon (Coords p1Building)) (Lat (Coords p2Building)) (Lon (Coords p2Building))"
        define i where "i = getCenterBuildingIndex distBetween2Points Buildings midpoint {}"
        note unf = meeting_query_def[of tie distBetween2Points centerBetween2Points NodeMap
            Footways Buildings G firstIndex secondIndex, unfolded Let_def]
        show ?thesis
        proof (cases "vector_at Buildings i")
          case (Inl e)
          with idx p1 p2 show ?thesis
            by (simp add: unf midpoint_def[symmetric] i_def[symmetric])
        next
          case cb: (Inr centerBuilding)
          show ?thesis
          proof (cases "getClosestNode distBetween2Points NodeMap Footways p1Building")
            case (Inl e)
            with idx p1 p2 cb show ?thesis
              by (simp add: unf midpoint_def[symmetric] i_def[symmetric])
          next
            case c1: (Inr p1Coords)
            show ?thesis
            proof (cases "getClosestNode distBetween2Points NodeMap Footways p2Building")
              case (Inl e)
              with idx p1 p2 cb c1 show ?thesis
                by (simp add: unf midpoint_def[symmetric] i_def[symmetric])
            next
              case c2: (Inr p2Coords)
              show ?thesis
              proof (cases "getClosestNode distBetween2Points NodeMap Footways centerBuilding")
                case (Inl e)
                with idx p1 p2 cb c1 c2 show ?thesis
                  by (simp add: unf midpoint_def[symmetric] i_def[symmetric])
              next
                case cc: (Inr centerCoords)
                from total obtain r1 where r1: "Dijkstra tie G (ID p1Coords) (ID centerCoords) [] = Some r1"
                  by blast
                from total obtain r2 where r2: "Dijkstra tie G (ID p2Coords) (ID centerCoords) [] = Some r2"
                  by blast
                from total obtain r3 where r3: "Dijkstra tie G (ID p1Coords) (ID p2Coords) [] = Some r3"
                  by blast
                define tr4 where "tr4 = [CenterChosen i, DijkstraRun (ID p1Coords) (ID centerCoords),
                    DijkstraRun (ID p2Coords) (ID centerCoords), DijkstraRun (ID p1Coords) (ID p2Coords)]"
                have t4: "retry_count tr4 = 0" by (simp add: tr4_def)
                from getCenterBuildingIndex_at[OF cb[unfolded i_def]]
                have cbB: "centerBuilding \<in> set Buildings" by blast
                then have "length (filter (\<lambda>b. Fullname b \<noteq> Fullname centerBuilding) Buildings)
                    < length Buildings"
                  by (intro length_filter_less[of centerBuilding]) auto
                then have n: "length (filter (\<lambda>b. Fullname b \<notin> insert (Fullname centerBuilding) {})
                    Buildings) + 1 \<le> length Buildings" by simp
                from retry_loop_bound[of tie G distBetween2Points NodeMap Footways Buildings midpoint
                    p1Coords p2Coords centerBuilding "{}" tr4] total
                obtain tr5 r5 where rl: "retry_loop tie distBetween2Points NodeMap Footways Buildings G
                    midpoint p1Coords p2Coords centerBuilding {} tr4 = Some (tr5, r5)"
                  "retry_count tr5 \<le> retry_count tr4 +
                     length (filter (\<lambda>b. Fullname b \<notin> insert (Fullname centerBuilding) {}) Buildings) + 1"
                  by blast
                from rl(2) t4 n have b5: "retry_count tr5 \<le> length Buildings" by simp
                have after: "\<exists>r. (case r5 of Inl e \<Rightarrow> Some (tr5, Inl e)
                    | Inr x \<Rightarrow> print_result tr5 x) = Some (tr5, r)"
                  using print_result_count[of tr5] by (cases r5) auto
                show ?thesis
                proof (cases r1)
                  case (Inl e)
                  with idx p1 p2 cb c1 c2 cc r1 show ?thesis
                    by (simp add: unf midpoint_def[symmetric] i_def[symmetric])
                next
                  case l1: (Inr leg1)
                  obtain d1 path1 where leg1: "leg1 = (d1, path1)" by (cases leg1)
                  show ?thesis
                  proof (cases r2)
                    case (Inl e)
                    with idx p1 p2 cb c1 c2 cc r1 l1 leg1 r2 show ?thesis
                      by (simp add: unf midpoint_def[symmetric] i_def[symmetric])
                  next
                    case l2: (Inr leg2)
                    obtain d2 path2 where leg2: "leg2 = (d2, path2)" by (cases leg2)
                    show ?thesis
                    proof (cases r3)
                      case (Inl e)
                      with idx p1 p2 cb c1 c2 cc r1 l1 leg1 r2 l2 leg2 r3 show ?thesis
                        by (simp add: unf midpoint_def[symmetric] i_def[symmetric])
                    next
                      case l3: (Inr leg3)
                      obtain d3 path3 where leg3: "leg3 = (d3, path3)" by (cases leg3)
                      have q: "?q =
                        (if d3 = - 1 then Some (tr4, Inr DestinationUnreachable)
                         else if d1 = - 1 \<or> d2 = - 1
                         then (case retry_loop tie distBetween2Points NodeMap Footways Buildings G
                                     midpoint p1Coords p2Coords centerBuilding {} tr4 of
                                 None \<Rightarrow> None
                               | Some (tr5, Inl e) \<Rightarrow> Some (tr5, Inl e)
                               | Some (tr5, Inr r) \<Rightarrow> print_result tr5 r)
                         else print_result tr4 (centerBuilding, centerCoords, d1, path1, d2, path2))"
                        using idx p1 p2 cb c1 c2 cc r1 l1 leg1 r2 l2 leg2 r3 l3 leg3
                        by (simp add: unf midpoint_def[symmetric] i_def[symmetric] tr4_def)
                      show ?thesis
                      proof (cases "d3 = - 1")
                        case True
                        with q t4 show ?thesis by simp
                      next
                        case d3: False
                        show ?thesis
                        proof (cases "d1 = - 1 \<or> d2 = - 1")
                          case True
                          with q d3 rl(1) after b5 show ?thesis by (cases r5) auto
                        next
                          case False
                          with q d3 t4
                            print_result_count[of tr4 "(centerBuilding, centerCoords, d1, path1, d2, path2)"]
                          show ?thesis by auto
                        qed
                      qed
                    qed
                  qed
                qed
              qed
            qed
          qed
        qed
      qed
    qed
  qed
  then show ?thesis by (simp add: G_def)
qed

theorem retry_cycle_bounded_witness:
  "list_all nonneg_op [AddVertex 1, AddVertex 2, AddVertex 3, AddVertex 5, AddVertex 6,
     AddEdge 1 2 10, AddEdge 2 1 10, AddEdge 5 6 10, AddEdge 6 5 10] \<and>
   meeting_query (\<lambda>h. 0) manhattan halfway same_name_nodes same_name_footways
       retry_buildings same_name_graph 0 1 =
     Some ([CenterChosen 2, DijkstraRun 1 5, DijkstraRun 2 5, DijkstraRun 1 2,
            CenterExcluded ''Island Hall'', CenterChosen 0, DijkstraRun 1 1, DijkstraRun 2 1],
           Inr (Found north_hall \<lparr>ID = 1, Lat = 0, Lon = 10\<rparr> 0 [1] 10 [1, 2])) \<and>
   retry_count [CenterChosen 2, DijkstraRun 1 5, DijkstraRun 2 5, DijkstraRun 1 2,
            CenterExcluded ''Island Hall'', CenterChosen 0, DijkstraRun 1 1, DijkstraRun 2 1]
     \<le> length retry_buildings"
proof -
  have n: "list_all nonneg_op [AddVertex 1, AddVertex 2, AddVertex 3, AddVertex 5, AddVertex 6,
     AddEdge 1 2 10, AddEdge 2 1 10, AddEdge 5 6 10, AddEdge 6 5 10]" by simp
  from retry_cycle_bounded[OF n, of "\<lambda>h. 0" manhattan halfway same_name_nodes same_name_footways
      retry_buildings 0 1, folded same_name_graph_def]
  show ?thesis using n by (simp add: retry_query)
qed

end
